theory Spec2Isabelle
  imports Main
begin

section \<open>Data model of the poker engine (poker\_agent.py)\<close>

datatype Phase = PRE_FLOP | FLOP | TURN | RIVER | SHOWDOWN | COMPLETED

record PlayerState =
  player_id :: string
  stack :: int
  hole_cards :: "string list"
  committed :: int
  is_folded :: bool
  is_all_in :: bool
  seat :: nat

text \<open>An entry of the action log: \<open>Action(player_id, action, amount)\<close>.\<close>

datatype Action = Action string string int

text \<open>
  An entry of \<open>pot_history\<close>: the dictionary with keys winner/amount written by the
  single-survivor branch, or the one with keys winners/split/remainder written by the
  showdown branch.
\<close>

datatype pot_record = SinglePot string int | SplitPot "string list" int int

record PokerEngine =
  players :: "PlayerState list"
  phase :: "Phase option"
  button_index :: nat
  current_actor_index :: nat
  deck :: "string list"
  community_cards :: "string list"
  hand_id :: string
  pot_history :: "pot_record list"
  actions :: "Action list"
  small_blind :: int
  big_blind :: int
  total_pot :: int
  deck_seed :: "string option"

text \<open>
  Python exceptions that can leave the engine's methods. A method that mutates the engine
  returns, on an exception, the exception together with the engine as it is at the raise.
\<close>

datatype py_exn =
  KeyError string | IndexError | ValueError | ZeroDivisionError | AttributeError | AssertionError

type_synonym 'a result = "(py_exn \<times> PokerEngine) + 'a"

text \<open>
  What \<open>apply_action\<close> returns: the dictionary with key error (one constructor per
  message: "No active hand", "Player cannot act", "Illegal action: a. Allowed: legal",
  "Invalid bet amount", "Invalid raise amount"), or the dictionary with ok, phase and
  total\_pot.
\<close>

datatype error_msg =
    NoActiveHand
  | PlayerCannotAct
  | IllegalAction string "string list"
  | InvalidBetAmount
  | InvalidRaiseAmount

datatype reply = Error error_msg | Ok Phase int

definition bind_exn :: "'x + 'a \<Rightarrow> ('a \<Rightarrow> 'x + 'b) \<Rightarrow> 'x + 'b" where
  "bind_exn m f = (case m of Inl x \<Rightarrow> Inl x | Inr v \<Rightarrow> f v)"

text \<open>An exception of a read-only helper, raised while the engine is \<open>e\<close>.\<close>

definition raised_in :: "PokerEngine \<Rightarrow> py_exn + 'a \<Rightarrow> 'a result" where
  "raised_in e m = (case m of Inl x \<Rightarrow> Inl (x, e) | Inr v \<Rightarrow> Inr v)"

section \<open>Construction\<close>

text \<open>
  The constructor: \<open>hid\<close> is the identifier that \<open>uuid.uuid4()\<close> produces; the assertion
  wants two players, and \<open>starting_stacks[i]\<close> raises IndexError on a list that is too short.
\<close>

definition new_engine ::
  "string list \<Rightarrow> int list option \<Rightarrow> int \<Rightarrow> int \<Rightarrow> string \<Rightarrow> py_exn + PokerEngine" where
  "new_engine player_ids starting_stacks sb bb hid =
     (if \<not> length player_ids \<ge> 2 then Inl AssertionError
      else
       (let stacks = (case starting_stacks of None \<Rightarrow> replicate (length player_ids) 1000 | Some s \<Rightarrow> s)
        in if length stacks < length player_ids then Inl IndexError
           else Inr \<lparr>players = map (\<lambda>(i, pid). \<lparr>player_id = pid, stack = stacks ! i, hole_cards = [],
                                                  committed = 0, is_folded = False, is_all_in = False,
                                                  seat = i\<rparr>) (enumerate 0 player_ids),
                     phase = None, button_index = 0, current_actor_index = 0, deck = [],
                     community_cards = [], hand_id = hid, pot_history = [], actions = [],
                     small_blind = sb, big_blind = bb, total_pot = 0, deck_seed = None\<rparr>))"

section \<open>Deck\<close>

definition standard_deck :: "string list" where
  "standard_deck = concat (map (\<lambda>r. map (\<lambda>s. [r, s]) ''cdhs'') ''23456789TJQKA'')"

text \<open>
  \<open>random.Random(seed).shuffle\<close> belongs to the Python library; it is the parameter
  \<open>rnd\<close>, which permutes a list under a seed.
\<close>

definition shuffle_with_seed :: "(string \<Rightarrow> string list \<Rightarrow> string list) \<Rightarrow> string \<Rightarrow> string list" where
  "shuffle_with_seed rnd seed = rnd seed standard_deck"

text \<open>\<open>self.deck.pop(0)\<close>: IndexError on an empty deck.\<close>

definition deck_pop :: "PokerEngine \<Rightarrow> (string \<times> PokerEngine) result" where
  "deck_pop e = (case deck e of [] \<Rightarrow> Inl (IndexError, e)
                 | c # rest \<Rightarrow> Inr (c, e\<lparr>deck := rest\<rparr>))"

section \<open>Helpers\<close>

fun find_from :: "PlayerState list \<Rightarrow> string \<Rightarrow> nat \<Rightarrow> py_exn + nat" where
  "find_from [] pid i = Inl (KeyError pid)"
| "find_from (p # ps) pid i = (if player_id p = pid then Inr i else find_from ps pid (Suc i))"

definition find_player_index :: "PokerEngine \<Rightarrow> string \<Rightarrow> py_exn + nat" where
  "find_player_index e pid = find_from (players e) pid 0"

text \<open>\<open>max(...)\<close> of a generator: ValueError when it yields nothing.\<close>

definition py_max :: "int list \<Rightarrow> py_exn + int" where
  "py_max xs = (case xs of [] \<Rightarrow> Inl ValueError | x # rest \<Rightarrow> Inr (fold max rest x))"

text \<open>The test \<open>not p.is_folded and not p.is_all_in\<close>.\<close>

definition can_act :: "PlayerState \<Rightarrow> bool" where
  "can_act p = (\<not> is_folded p \<and> \<not> is_all_in p)"

text \<open>
  The statements shared by post\_blind and the call, bet and raise branches:
  \<open>p.stack -= pay; p.committed += pay; self.total_pot += pay; if p.stack == 0: p.is_all_in = True\<close>
  for the player at index \<open>idx\<close>.
\<close>

definition pay_chips :: "nat \<Rightarrow> int \<Rightarrow> PokerEngine \<Rightarrow> PokerEngine" where
  "pay_chips idx pay e =
     (let p = players e ! idx;
          p1 = p\<lparr>stack := stack p - pay, committed := committed p + pay\<rparr>;
          p2 = (if stack p1 = 0 then p1\<lparr>is_all_in := True\<rparr> else p1)
      in e\<lparr>players := (players e)[idx := p2], total_pot := total_pot e + pay\<rparr>)"

definition log_action :: "Action \<Rightarrow> PokerEngine \<Rightarrow> PokerEngine" where
  "log_action a e = e\<lparr>actions := actions e @ [a]\<rparr>"

section \<open>start\_hand\<close>

definition reset_player :: "PlayerState \<Rightarrow> PlayerState" where
  "reset_player p = p\<lparr>hole_cards := [], committed := 0, is_folded := False, is_all_in := False\<rparr>"

definition post_blind :: "nat \<Rightarrow> int \<Rightarrow> string \<Rightarrow> PokerEngine \<Rightarrow> PokerEngine result" where
  "post_blind idx amount label e =
     (if idx < length (players e) then
        (let p = players e ! idx;
             actual = min (stack p) amount
         in Inr (pay_chips idx actual
                   (log_action (Action (player_id p) (''post_'' @ label) actual) e)))
      else Inl (IndexError, e))"

text \<open>The two dealing passes: one card from the front of the deck to each seat of the list.\<close>

fun deal_hole :: "nat list \<Rightarrow> PokerEngine \<Rightarrow> PokerEngine result" where
  "deal_hole [] e = Inr e"
| "deal_hole (s # ss) e =
     bind_exn (deck_pop e) (\<lambda>(card, e1).
       deal_hole ss
         (e1\<lparr>players := (players e1)[s := (players e1 ! s)\<lparr>hole_cards := hole_cards (players e1 ! s) @ [card]\<rparr>]\<rparr>))"

text \<open>
  \<open>seed\<close> is the argument \<open>deck_seed\<close> (None or the empty string are falsy) and \<open>fresh\<close>
  the identifier that \<open>uuid.uuid4()\<close> would produce.
\<close>

definition start_hand ::
  "(string \<Rightarrow> string list \<Rightarrow> string list) \<Rightarrow> string \<Rightarrow> string option \<Rightarrow> PokerEngine \<Rightarrow> PokerEngine result" where
  "start_hand rnd fresh seed e =
     (let ds = (case seed of None \<Rightarrow> fresh | Some s \<Rightarrow> if s = [] then fresh else s);
          e1 = e\<lparr>deck_seed := Some ds, deck := shuffle_with_seed rnd ds, community_cards := [],
                 total_pot := 0, actions := [], pot_history := [],
                 players := map reset_player (players e)\<rparr>;
          n = length (players e1)
      in if n = 0 then Inl (ZeroDivisionError, e1)
         else
          (let sb = button_index e1;
               bb = (button_index e1 + 1) mod n
           in bind_exn (post_blind sb (small_blind e1) ''sb'' e1) (\<lambda>e2.
              bind_exn (post_blind bb (big_blind e2) ''bb'' e2) (\<lambda>e3.
              let deal_start = (button_index e3 + 1) mod n
              in bind_exn (deal_hole (concat (replicate 2 (map (\<lambda>i. (deal_start + i) mod n) [0..<n]))) e3) (\<lambda>e4.
                 let e5 = e4\<lparr>phase := Some PRE_FLOP, current_actor_index := (bb + 1) mod n\<rparr>
                 in Inr (case List.find (\<lambda>idx. can_act (players e5 ! idx))
                                (map (\<lambda>i. (current_actor_index e5 + i) mod n) [0..<n]) of
                           None \<Rightarrow> e5
                         | Some idx \<Rightarrow> e5\<lparr>current_actor_index := idx\<rparr>))))))"

section \<open>legal\_actions\<close>

definition legal_actions :: "PokerEngine \<Rightarrow> string \<Rightarrow> py_exn + string list" where
  "legal_actions e pid =
     bind_exn (find_player_index e pid) (\<lambda>idx.
       let p = players e ! idx
       in if is_folded p \<or> is_all_in p \<or> phase e = Some COMPLETED then Inr []
          else bind_exn (py_max (map committed (players e))) (\<lambda>highest.
            let to_call = highest - committed p
            in if to_call > 0 then
                 Inr ([''fold'']
                      @ (if stack p \<ge> to_call then [''call''] else [])
                      @ (if stack p > to_call then [''raise''] else [])
                      @ (if stack p > 0 then [''allin''] else []))
               else
                 Inr ([''check''] @ (if stack p > 0 then [''bet'', ''allin''] else []))))"

section \<open>Turn rotation, round completion\<close>

definition advance_turn :: "PokerEngine \<Rightarrow> PokerEngine" where
  "advance_turn e =
     (let active_players = filter can_act (players e)
      in if length active_players = 0 then e
         else
          (let n = length (players e)
           in case List.find (\<lambda>idx. can_act (players e ! idx))
                     (map (\<lambda>i. (current_actor_index e + i) mod n) [1..<n + 1]) of
                None \<Rightarrow> e
              | Some idx \<Rightarrow> e\<lparr>current_actor_index := idx\<rparr>))"

text \<open>The loop \<open>for p in active: if p.committed != highest: return False\<close>, then True.\<close>

fun all_matched :: "PlayerState list \<Rightarrow> int \<Rightarrow> bool" where
  "all_matched [] highest = True"
| "all_matched (p # ps) highest = (if committed p \<noteq> highest then False else all_matched ps highest)"

definition is_betting_round_complete :: "PokerEngine \<Rightarrow> py_exn + bool" where
  "is_betting_round_complete e =
     (let active = filter can_act (players e)
      in if length active = 0 then Inr True
         else bind_exn (py_max (map committed (players e))) (\<lambda>highest.
                Inr (all_matched active highest)))"

section \<open>Showdown and distribution\<close>

text \<open>
  The evaluator of the treys library is outside the repository: \<open>ev board hand\<close> stands
  for \<open>evaluator.evaluate([Card.new(c) for c in board], [Card.new(c) for c in hand])\<close>,
  a score where lower is better. Players are referred to by their index in
  \<open>self.players\<close>, which is how the objects held in \<open>active\<close> and \<open>tied\<close> are told apart.
\<close>

definition add_stack :: "int \<Rightarrow> nat \<Rightarrow> PlayerState list \<Rightarrow> PlayerState list" where
  "add_stack amount i ps = ps[i := (ps ! i)\<lparr>stack := stack (ps ! i) + amount\<rparr>]"

definition evaluate_and_distribute ::
  "(string list \<Rightarrow> string list \<Rightarrow> int) \<Rightarrow> PokerEngine \<Rightarrow> PokerEngine result" where
  "evaluate_and_distribute ev e =
     (let active = filter (\<lambda>i. \<not> is_folded (players e ! i)) [0..<length (players e)]
      in if length active = 1 then
           (let winner = active ! 0
            in Inr (e\<lparr>players := add_stack (total_pot e) winner (players e),
                      pot_history := pot_history e @ [SinglePot (player_id (players e ! winner)) (total_pot e)],
                      total_pot := 0\<rparr>))
         else
           (let board = community_cards e;
                scores = sort_key fst (map (\<lambda>i. (ev board (hole_cards (players e ! i)), i)) active)
            in case scores of
                 [] \<Rightarrow> Inl (IndexError, e)
               | (best_score, winner) # _ \<Rightarrow>
                   (let tied = map snd (filter (\<lambda>(s, i). s = best_score) scores);
                        share = total_pot e div int (length tied);
                        remainder = total_pot e mod int (length tied);
                        ps1 = fold (add_stack share) tied (players e);
                        ps2 = add_stack remainder (tied ! 0) ps1
                    in Inr (e\<lparr>players := ps2,
                              pot_history := pot_history e
                                @ [SplitPot (map (\<lambda>i. player_id (players e ! i)) tied) share remainder],
                              total_pot := 0\<rparr>))))"

section \<open>Phase advancement\<close>

definition phase_order :: "Phase list" where
  "phase_order = [PRE_FLOP, FLOP, TURN, RIVER, SHOWDOWN, COMPLETED]"

text \<open>\<open>list.index\<close>: ValueError when the element is absent.\<close>

fun index_from :: "'a list \<Rightarrow> 'a \<Rightarrow> nat \<Rightarrow> py_exn + nat" where
  "index_from [] x i = Inl ValueError"
| "index_from (y # ys) x i = (if y = x then Inr i else index_from ys x (Suc i))"

text \<open>
  \<open>cur = self._phase_order.index(self.phase); next_phase = self._phase_order[cur + 1]\<close>:
  ValueError when the phase is None, IndexError after COMPLETED.
\<close>

definition next_phase :: "Phase option \<Rightarrow> py_exn + Phase" where
  "next_phase ph =
     bind_exn (index_from (map Some phase_order) ph 0) (\<lambda>cur.
       if cur + 1 < length phase_order then Inr (phase_order ! (cur + 1)) else Inl IndexError)"

text \<open>Entering the flop: one burn card, then three cards revealed.\<close>

definition deal_flop :: "PokerEngine \<Rightarrow> PokerEngine result" where
  "deal_flop e =
     bind_exn (deck_pop e) (\<lambda>(burn, e1).
     bind_exn (deck_pop e1) (\<lambda>(c1, e2).
     bind_exn (deck_pop e2) (\<lambda>(c2, e3).
     bind_exn (deck_pop e3) (\<lambda>(c3, e4).
       Inr (e4\<lparr>community_cards := community_cards e4 @ [c1, c2, c3]\<rparr>)))))"

text \<open>Entering the turn or the river: one burn card, then one card revealed.\<close>

definition deal_street :: "PokerEngine \<Rightarrow> PokerEngine result" where
  "deal_street e =
     bind_exn (deck_pop e) (\<lambda>(burn, e1).
     bind_exn (deck_pop e1) (\<lambda>(c, e2).
       Inr (e2\<lparr>community_cards := community_cards e2 @ [c]\<rparr>)))"

definition showdown :: "(string list \<Rightarrow> string list \<Rightarrow> int) \<Rightarrow> PokerEngine \<Rightarrow> PokerEngine result" where
  "showdown ev e = bind_exn (evaluate_and_distribute ev e) (\<lambda>e1. Inr (e1\<lparr>phase := Some COMPLETED\<rparr>))"

definition phase_rank :: "Phase option \<Rightarrow> nat" where
  "phase_rank ph = (case ph of None \<Rightarrow> 6 | Some PRE_FLOP \<Rightarrow> 5 | Some FLOP \<Rightarrow> 4 | Some TURN \<Rightarrow> 3
                    | Some RIVER \<Rightarrow> 2 | Some SHOWDOWN \<Rightarrow> 1 | Some COMPLETED \<Rightarrow> 0)"

text \<open>The loop \<open>while self.phase not in (Phase.SHOWDOWN, Phase.COMPLETED)\<close> of the auto-run.\<close>

function fast_forward :: "(string list \<Rightarrow> string list \<Rightarrow> int) \<Rightarrow> PokerEngine \<Rightarrow> PokerEngine result" where
  "fast_forward ev e =
     (if phase e = Some SHOWDOWN \<or> phase e = Some COMPLETED then Inr e
      else case next_phase (phase e) of
             Inl x \<Rightarrow> Inl (x, e)
           | Inr nxt \<Rightarrow>
               (let e1 = e\<lparr>phase := Some nxt\<rparr>
                in if nxt = TURN then
                     (case deal_street e1 of Inl x \<Rightarrow> Inl x | Inr e2 \<Rightarrow> fast_forward ev e2)
                   else if nxt = RIVER then
                     (case deal_street e1 of Inl x \<Rightarrow> Inl x | Inr e2 \<Rightarrow> fast_forward ev e2)
                   else if nxt = SHOWDOWN then showdown ev e1
                   else fast_forward ev e1))"
  by pat_completeness auto

termination
proof -
  have rank: "phase_rank (Some b) < phase_rank ph" if "next_phase ph = Inr b" for ph b
    using that
    by (cases ph; cases "the ph")
       (auto simp: next_phase_def bind_exn_def phase_order_def phase_rank_def split: if_splits)
  have same: "phase e2 = phase x" if "deal_street x = Inr e2" for x e2
    using that by (auto simp: deal_street_def deck_pop_def bind_exn_def split: list.splits)
  show ?thesis
    by (relation "measure (\<lambda>(ev, e). phase_rank (phase e))") (auto dest!: rank same)
qed

definition advance_phase :: "(string list \<Rightarrow> string list \<Rightarrow> int) \<Rightarrow> PokerEngine \<Rightarrow> PokerEngine result" where
  "advance_phase ev e =
     bind_exn (raised_in e (next_phase (phase e))) (\<lambda>nxt.
       let e1 = e\<lparr>phase := Some nxt\<rparr>
       in if nxt = SHOWDOWN then showdown ev e1
          else bind_exn (if nxt = FLOP then deal_flop e1
                         else if nxt = TURN then deal_street e1
                         else if nxt = RIVER then deal_street e1
                         else Inr e1) (\<lambda>e2.
                 let active = filter can_act (players e2)
                 in if length active = 0 then fast_forward ev e2 else Inr e2))"

section \<open>apply\_action\<close>

text \<open>
  Lines 262 to 273: the turn moves, a completed round advances the phase, and the
  reply reports the phase and the pot.
\<close>

definition finish_action :: "(string list \<Rightarrow> string list \<Rightarrow> int) \<Rightarrow> PokerEngine \<Rightarrow> (reply \<times> PokerEngine) result" where
  "finish_action ev e =
     (let e1 = advance_turn e
      in bind_exn (raised_in e1 (is_betting_round_complete e1)) (\<lambda>complete.
         bind_exn (if complete then advance_phase ev e1 else Inr e1) (\<lambda>e2.
           case phase e2 of
             None \<Rightarrow> Inl (AttributeError, e2)
           | Some ph \<Rightarrow> Inr (Ok ph (total_pot e2), e2))))"

definition apply_action ::
  "(string list \<Rightarrow> string list \<Rightarrow> int) \<Rightarrow> PokerEngine \<Rightarrow> string \<Rightarrow> string \<Rightarrow> int \<Rightarrow> (reply \<times> PokerEngine) result" where
  "apply_action ev e pid action amount =
     (if phase e = None \<or> phase e = Some COMPLETED then Inr (Error NoActiveHand, e)
      else bind_exn (raised_in e (find_player_index e pid)) (\<lambda>idx.
        let p = players e ! idx
        in if is_folded p \<or> is_all_in p then Inr (Error PlayerCannotAct, e)
           else bind_exn (raised_in e (legal_actions e pid)) (\<lambda>legal.
             if action \<notin> set legal then Inr (Error (IllegalAction action legal), e)
             else bind_exn (raised_in e (py_max (map committed (players e)))) (\<lambda>highest.
               let to_call = highest - committed p
               in if action = ''fold'' then
                    finish_action ev
                      (log_action (Action pid action 0)
                         (e\<lparr>players := (players e)[idx := p\<lparr>is_folded := True\<rparr>]\<rparr>))
                  else if action = ''call'' then
                    (let pay = min (stack p) to_call
                     in finish_action ev (log_action (Action pid action pay) (pay_chips idx pay e)))
                  else if action = ''check'' then
                    finish_action ev (log_action (Action pid action 0) e)
                  else if action = ''bet'' then
                    (if amount \<le> 0 \<or> amount > stack p then Inr (Error InvalidBetAmount, e)
                     else finish_action ev (log_action (Action pid ''bet'' amount) (pay_chips idx amount e)))
                  else if action = ''raise'' then
                    (if amount \<le> 0 \<or> amount > stack p then Inr (Error InvalidRaiseAmount, e)
                     else (let pay = min (stack p) (to_call + amount)
                           in finish_action ev (log_action (Action pid ''raise'' pay) (pay_chips idx pay e))))
                  else if action = ''allin'' then
                    (let pay = stack p
                     in finish_action ev
                          (log_action (Action pid ''allin'' pay)
                             (e\<lparr>players := (players e)[idx := p\<lparr>stack := 0, committed := committed p + pay,
                                                                    is_all_in := True\<rparr>],
                                total_pot := total_pot e + pay\<rparr>)))
                  else finish_action ev e))))"

section \<open>Notions of the specification and of the proofs\<close>

text \<open>The sum of the stacks and the sum of the committed amounts, over all seats.\<close>

definition stacks_total :: "PokerEngine \<Rightarrow> int" where
  "stacks_total e = sum_list (map stack (players e))"

definition committed_total :: "PokerEngine \<Rightarrow> int" where
  "committed_total e = sum_list (map committed (players e))"

text \<open>No stack and no pot is below zero.\<close>

definition solvent :: "PokerEngine \<Rightarrow> bool" where
  "solvent e = ((\<forall>p\<in>set (players e). 0 \<le> stack p) \<and> 0 \<le> total_pot e)"

text \<open>
  A seat without its stack. \<open>keeps e e'\<close>: the engine \<open>e'\<close> has the chips of \<open>e\<close>
  (stacks plus pot), the seats of \<open>e\<close> up to their stacks and the action log of \<open>e\<close>,
  and is solvent if \<open>e\<close> is. This is what turn rotation, dealing and distribution keep.
\<close>

definition static_part :: "PlayerState \<Rightarrow> PlayerState" where
  "static_part p = p\<lparr>stack := 0\<rparr>"

definition keeps :: "PokerEngine \<Rightarrow> PokerEngine \<Rightarrow> bool" where
  "keeps e e' =
     (stacks_total e' + total_pot e' = stacks_total e + total_pot e
      \<and> map static_part (players e') = map static_part (players e)
      \<and> actions e' = actions e
      \<and> (solvent e \<longrightarrow> solvent e'))"

text \<open>
  The seats, as indices into \<open>players\<close>, that have not folded, in seat order; the
  score the evaluator gives a seat on the board; and the co-winners of the specification:
  the unfolded seats whose score is the minimal one, in seat order.
\<close>

definition unfolded_seats :: "PokerEngine \<Rightarrow> nat list" where
  "unfolded_seats e = filter (\<lambda>i. \<not> is_folded (players e ! i)) [0..<length (players e)]"

definition seat_score :: "(string list \<Rightarrow> string list \<Rightarrow> int) \<Rightarrow> PokerEngine \<Rightarrow> nat \<Rightarrow> int" where
  "seat_score ev e i = ev (community_cards e) (hole_cards (players e ! i))"

definition co_winners :: "(string list \<Rightarrow> string list \<Rightarrow> int) \<Rightarrow> PokerEngine \<Rightarrow> nat list" where
  "co_winners ev e =
     filter (\<lambda>i. seat_score ev e i = Min (seat_score ev e ` set (unfolded_seats e))) (unfolded_seats e)"

text \<open>
  A hand is in play in the four phases that wait for actions. An engine is settled when
  its hand is in play or completed with an empty pot; \<open>settles e e'\<close> says how a step
  from \<open>e\<close> ends: still in play with the pot of \<open>e\<close>, or completed with the pot paid out.
\<close>

definition in_play :: "Phase option \<Rightarrow> bool" where
  "in_play ph = (ph = Some PRE_FLOP \<or> ph = Some FLOP \<or> ph = Some TURN \<or> ph = Some RIVER)"

definition settled :: "PokerEngine \<Rightarrow> bool" where
  "settled e = (in_play (phase e) \<or> (phase e = Some COMPLETED \<and> total_pot e = 0))"

definition settles :: "PokerEngine \<Rightarrow> PokerEngine \<Rightarrow> bool" where
  "settles e e' = ((in_play (phase e') \<and> total_pot e' = total_pot e)
                   \<or> (phase e' = Some COMPLETED \<and> total_pot e' = 0))"

text \<open>What the branches of apply\_action do to the ledger before the turn moves.\<close>

definition transfers :: "PokerEngine \<Rightarrow> PokerEngine \<Rightarrow> bool" where
  "transfers e e1 =
     (stacks_total e1 + total_pot e1 = stacks_total e + total_pot e
      \<and> committed_total e1 - total_pot e1 = committed_total e - total_pot e
      \<and> phase e1 = phase e
      \<and> length (players e1) = length (players e))"

definition moved :: "PokerEngine \<Rightarrow> PokerEngine \<Rightarrow> bool" where
  "moved e e1 = (transfers e e1 \<and> (solvent e \<longrightarrow> solvent e1))"

text \<open>While the hand is in play the committed amounts add up to the pot.\<close>

definition booked :: "PokerEngine \<Rightarrow> bool" where
  "booked e = (in_play (phase e) \<longrightarrow> committed_total e = total_pot e)"

section \<open>A hand: start\_hand, then actions that are applied\<close>

text \<open>
  A sequence of requests of which each one is applied: the run stops with None at the
  first request that is rejected or raises.
\<close>

fun apply_actions ::
  "(string list \<Rightarrow> string list \<Rightarrow> int) \<Rightarrow> PokerEngine \<Rightarrow> (string \<times> string \<times> int) list \<Rightarrow> PokerEngine option" where
  "apply_actions ev e [] = Some e"
| "apply_actions ev e ((pid, action, amount) # rest) =
     (case apply_action ev e pid action amount of
        Inr (Ok ph pot, e') \<Rightarrow> apply_actions ev e' rest
      | _ \<Rightarrow> None)"

section \<open>The step-by-step path\<close>

text \<open>
  The path on which seats remain able to act: one call of the phase advancement per
  completed betting round, here \<open>n\<close> of them in a row.
\<close>

fun step_by_step ::
  "(string list \<Rightarrow> string list \<Rightarrow> int) \<Rightarrow> nat \<Rightarrow> PokerEngine \<Rightarrow> PokerEngine result" where
  "step_by_step ev 0 e = Inr e"
| "step_by_step ev (Suc n) e = bind_exn (advance_phase ev e) (step_by_step ev n)"

definition streets_left :: "Phase option \<Rightarrow> nat" where
  "streets_left ph =
     (if ph = Some PRE_FLOP then 4 else if ph = Some FLOP then 3
      else if ph = Some TURN then 2 else if ph = Some RIVER then 1 else 0)"

text \<open>What a run shows of the cards: the exception, or the board, the deck and the phase.\<close>

definition board_view :: "PokerEngine result \<Rightarrow> py_exn + (string list \<times> string list \<times> Phase option)" where
  "board_view r = (case r of Inl (x, e) \<Rightarrow> Inl x
                   | Inr e \<Rightarrow> Inr (community_cards e, deck e, phase e))"

text \<open>
  Two engines with the same deck, board and phase: in the first no seat can act and
  some seat is unfolded, in the second a seat can act.
\<close>

definition paired :: "PokerEngine \<Rightarrow> PokerEngine \<Rightarrow> bool" where
  "paired x y =
     (deck x = deck y \<and> community_cards x = community_cards y \<and> phase x = phase y
      \<and> filter can_act (players x) = [] \<and> unfolded_seats x \<noteq> []
      \<and> filter can_act (players y) \<noteq> [])"

text \<open>The quantity of the specification: stacks, committed amounts and pot added up.\<close>

definition ledger_sum :: "PokerEngine \<Rightarrow> int" where
  "ledger_sum e = stacks_total e + committed_total e + total_pot e"

section \<open>Example engines\<close>

text \<open>
  A shuffle that leaves the deck in its standard order, an evaluator under which every
  hand ties, and the states of a two-seat hand with stacks of 1000 and blinds 5 and 10:
  fresh, after start\_hand, and after the action lines used below.
\<close>

definition keep_order :: "string \<Rightarrow> string list \<Rightarrow> string list" where
  "keep_order seed cards = cards"

definition flat_eval :: "string list \<Rightarrow> string list \<Rightarrow> int" where
  "flat_eval board hand = 0"

definition seat_state :: "string \<Rightarrow> nat \<Rightarrow> int \<Rightarrow> int \<Rightarrow> string list \<Rightarrow> bool \<Rightarrow> bool \<Rightarrow> PlayerState" where
  "seat_state pid n stk com cards folded all_in =
     \<lparr>player_id = pid, stack = stk, hole_cards = cards, committed = com,
      is_folded = folded, is_all_in = all_in, seat = n\<rparr>"

definition two_seats :: PokerEngine where
  "two_seats =
     \<lparr>players = [seat_state ''alice'' 0 1000 0 [] False False,
                  seat_state ''bob'' 1 1000 0 [] False False],
      phase = None, button_index = 0, current_actor_index = 0, deck = [],
      community_cards = [], hand_id = ''h1'', pot_history = [], actions = [],
      small_blind = 5, big_blind = 10, total_pot = 0, deck_seed = None\<rparr>"

definition two_seats_dealt :: PokerEngine where
  "two_seats_dealt =
     \<lparr>players = [seat_state ''alice'' 0 995 5 [''2d'', ''2s''] False False,
                  seat_state ''bob'' 1 990 10 [''2c'', ''2h''] False False],
      phase = Some PRE_FLOP, button_index = 0, current_actor_index = 0,
      deck = drop 4 standard_deck,
      community_cards = [], hand_id = ''h1'', pot_history = [],
      actions = [Action ''alice'' ''post_sb'' 5, Action ''bob'' ''post_bb'' 10],
      small_blind = 5, big_blind = 10, total_pot = 15, deck_seed = Some ''seed''\<rparr>"

text \<open>Alice folds and Bob checks the flop, the turn and the river.\<close>

definition fold_line :: "(string \<times> string \<times> int) list" where
  "fold_line = [(''alice'', ''fold'', 0), (''bob'', ''check'', 0), (''bob'', ''check'', 0),
                (''bob'', ''check'', 0)]"

definition two_seats_won :: PokerEngine where
  "two_seats_won =
     two_seats_dealt
       \<lparr>players := [seat_state ''alice'' 0 995 5 [''2d'', ''2s''] True False,
                     seat_state ''bob'' 1 1005 10 [''2c'', ''2h''] False False],
        phase := Some COMPLETED, current_actor_index := 1,
        deck := drop 12 standard_deck,
        community_cards := [''3d'', ''3h'', ''3s'', ''4d'', ''4s''],
        pot_history := [SinglePot ''bob'' 15],
        actions := [Action ''alice'' ''post_sb'' 5, Action ''bob'' ''post_bb'' 10,
                    Action ''alice'' ''fold'' 0, Action ''bob'' ''check'' 0,
                    Action ''bob'' ''check'' 0, Action ''bob'' ''check'' 0],
        total_pot := 0\<rparr>"

text \<open>Alice calls the big blind, which ends the round and deals the flop.\<close>

definition two_seats_called :: PokerEngine where
  "two_seats_called =
     two_seats_dealt
       \<lparr>players := [seat_state ''alice'' 0 990 10 [''2d'', ''2s''] False False,
                     seat_state ''bob'' 1 990 10 [''2c'', ''2h''] False False],
        phase := Some FLOP, current_actor_index := 1,
        deck := drop 8 standard_deck,
        community_cards := [''3d'', ''3h'', ''3s''],
        actions := [Action ''alice'' ''post_sb'' 5, Action ''bob'' ''post_bb'' 10,
                    Action ''alice'' ''call'' 5],
        total_pot := 20\<rparr>"

text \<open>Alice raises by 20 over the call of 5.\<close>

definition two_seats_raised :: PokerEngine where
  "two_seats_raised =
     two_seats_dealt
       \<lparr>players := [seat_state ''alice'' 0 970 30 [''2d'', ''2s''] False False,
                     seat_state ''bob'' 1 990 10 [''2c'', ''2h''] False False],
        current_actor_index := 1,
        actions := [Action ''alice'' ''post_sb'' 5, Action ''bob'' ''post_bb'' 10,
                    Action ''alice'' ''raise'' 25],
        total_pot := 40\<rparr>"

text \<open>Alice goes all-in before the flop; then Bob calls with his whole stack.\<close>

definition two_seats_shoved :: PokerEngine where
  "two_seats_shoved =
     two_seats_dealt
       \<lparr>players := [seat_state ''alice'' 0 0 1000 [''2d'', ''2s''] False True,
                     seat_state ''bob'' 1 990 10 [''2c'', ''2h''] False False],
        current_actor_index := 1,
        actions := [Action ''alice'' ''post_sb'' 5, Action ''bob'' ''post_bb'' 10,
                    Action ''alice'' ''allin'' 995],
        total_pot := 1010\<rparr>"

definition two_seats_showdown :: PokerEngine where
  "two_seats_showdown =
     two_seats_shoved
       \<lparr>players := [seat_state ''alice'' 0 1000 1000 [''2d'', ''2s''] False True,
                     seat_state ''bob'' 1 1000 1000 [''2c'', ''2h''] False True],
        phase := Some COMPLETED,
        deck := drop 12 standard_deck,
        community_cards := [''3d'', ''3h'', ''3s'', ''4d'', ''4s''],
        pot_history := [SplitPot [''alice'', ''bob''] 1000 0],
        actions := [Action ''alice'' ''post_sb'' 5, Action ''bob'' ''post_bb'' 10,
                    Action ''alice'' ''allin'' 995, Action ''bob'' ''call'' 990],
        total_pot := 0\<rparr>"

text \<open>Both seats all-in before the flop, as the engine is when the round is found complete.\<close>

definition two_seats_all_in :: PokerEngine where
  "two_seats_all_in =
     two_seats_shoved
       \<lparr>players := [seat_state ''alice'' 0 0 1000 [''2d'', ''2s''] False True,
                     seat_state ''bob'' 1 0 1000 [''2c'', ''2h''] False True],
        actions := [Action ''alice'' ''post_sb'' 5, Action ''bob'' ''post_bb'' 10,
                    Action ''alice'' ''allin'' 995, Action ''bob'' ''call'' 990],
        total_pot := 2000\<rparr>"

text \<open>Four seats on the river with a pot of 100: the first seat has folded, the others tie.\<close>

definition four_seats_river :: PokerEngine where
  "four_seats_river =
     \<lparr>players = [seat_state ''ann'' 0 50 10 [''2c'', ''2d''] True False,
                  seat_state ''ben'' 1 10 30 [''2h'', ''2s''] False False,
                  seat_state ''cat'' 2 20 30 [''3c'', ''3d''] False False,
                  seat_state ''dan'' 3 30 30 [''3h'', ''3s''] False False],
      phase = Some RIVER, button_index = 0, current_actor_index = 1,
      deck = [''9c'', ''9d''],
      community_cards = [''4d'', ''4h'', ''4s'', ''5d'', ''5s''], hand_id = ''h2'',
      pot_history = [], actions = [],
      small_blind = 5, big_blind = 10, total_pot = 100, deck_seed = Some ''seed''\<rparr>"

definition four_seats_paid :: PokerEngine where
  "four_seats_paid =
     four_seats_river
       \<lparr>players := [seat_state ''ann'' 0 50 10 [''2c'', ''2d''] True False,
                     seat_state ''ben'' 1 44 30 [''2h'', ''2s''] False False,
                     seat_state ''cat'' 2 53 30 [''3c'', ''3d''] False False,
                     seat_state ''dan'' 3 63 30 [''3h'', ''3s''] False False],
        pot_history := [SplitPot [''ben'', ''cat'', ''dan''] 33 1],
        total_pot := 0\<rparr>"

section \<open>Properties\<close>

text \<open>The example engines are what the constructor and start\_hand produce.\<close>

lemma new_engine_two_seats: "new_engine [''alice'', ''bob''] None 5 10 ''h1'' = Inr two_seats"
  by code_simp

lemma start_hand_two_seats:
  "start_hand keep_order ''u1'' (Some ''seed'') two_seats = Inr two_seats_dealt"
  by code_simp

lemma bind_exn_simps [simp]:
  "bind_exn (Inl x) f = Inl x" "bind_exn (Inr v) f = f v"
  by (simp_all add: bind_exn_def)

lemma raised_in_simps [simp]:
  "raised_in e (Inl x) = Inl (x, e)" "raised_in e (Inr v) = Inr v"
  by (simp_all add: raised_in_def)

lemma find_from_bounds:
  "find_from ps pid i = Inr j \<Longrightarrow> i \<le> j \<and> j < i + length ps \<and> player_id (ps ! (j - i)) = pid"
proof (induction ps arbitrary: i)
  case Nil
  then show ?case by simp
next
  case (Cons p ps)
  show ?case
  proof (cases "player_id p = pid")
    case True
    with Cons.prems show ?thesis by simp
  next
    case False
    with Cons.prems have "find_from ps pid (Suc i) = Inr j" by simp
    from Cons.IH[OF this] show ?thesis by (auto simp: Suc_diff_le)
  qed
qed

lemma find_player_index_lt:
  "find_player_index e pid = Inr idx \<Longrightarrow> idx < length (players e)"
  using find_from_bounds[of "players e" pid 0 idx] by (simp add: find_player_index_def)

lemma py_max_Max:
  assumes "xs \<noteq> []"
  shows "py_max xs = Inr (Max (set xs))"
proof (cases xs)
  case Nil
  with assms show ?thesis by simp
next
  case (Cons a list)
  then show ?thesis using Max.set_eq_fold[of a list] by (simp add: py_max_def)
qed

lemma all_matched_iff: "all_matched ps h \<longleftrightarrow> (\<forall>p\<in>set ps. committed p = h)"
  by (induction ps) auto

text \<open>
  Claim C2. The round-completion test returns True exactly when no seat is both unfolded
  and not all-in, or every such seat has committed the maximum committed over all seats;
  it never raises.
\<close>

theorem round_complete_iff:
  "is_betting_round_complete e =
     Inr ((\<forall>p\<in>set (players e). \<not> (\<not> is_folded p \<and> \<not> is_all_in p))
          \<or> (\<forall>p\<in>set (players e). \<not> is_folded p \<and> \<not> is_all_in p
                \<longrightarrow> committed p = Max (committed ` set (players e))))"
proof (cases "filter can_act (players e) = []")
  case True
  then have "\<forall>p\<in>set (players e). \<not> can_act p" by (simp add: filter_empty_conv)
  with True show ?thesis by (simp add: is_betting_round_complete_def can_act_def)
next
  case False
  then have ne: "players e \<noteq> []" by auto
  from False have ex: "\<exists>p\<in>set (players e). can_act p" by (simp add: filter_empty_conv)
  have "py_max (map committed (players e)) = Inr (Max (committed ` set (players e)))"
    using ne by (simp add: py_max_Max)
  with False ex show ?thesis
    by (auto simp: is_betting_round_complete_def all_matched_iff can_act_def)
qed

theorem round_complete_iff_witness:
  "is_betting_round_complete two_seats_dealt = Inr False
   \<and> is_betting_round_complete two_seats_called = Inr True
   \<and> is_betting_round_complete two_seats_all_in = Inr True"
proof -
  have a: "is_betting_round_complete two_seats_dealt = Inr False" by code_simp
  have b: "is_betting_round_complete two_seats_called = Inr True" by code_simp
  have c: "is_betting_round_complete two_seats_all_in = Inr True" by code_simp
  show ?thesis
    using round_complete_iff[of two_seats_dealt] a b c by - (intro conjI, assumption+)
qed

text \<open>
  Claim C3. For a known seat, legal\_actions returns the empty set when the seat is
  folded or all-in or the hand is COMPLETED. Otherwise, with to\_call the maximum
  committed minus the seat's committed: when to\_call is positive the set is fold, plus
  call iff stack \<open>\<ge>\<close> to\_call, plus raise iff stack \<open>>\<close> to\_call, plus
  allin iff stack \<open>>\<close> 0, and check is absent; when to\_call is 0 the set is check,
  plus bet and allin iff stack \<open>>\<close> 0. No other case arises: to\_call is never
  negative.
\<close>

theorem legal_actions_spec:
  assumes "find_player_index e pid = Inr idx"
  shows "\<exists>acts. legal_actions e pid = Inr acts \<and>
     (let p = players e ! idx;
          to_call = Max (committed ` set (players e)) - committed p
      in 0 \<le> to_call \<and>
         set acts =
           (if is_folded p \<or> is_all_in p \<or> phase e = Some COMPLETED then {}
            else if to_call > 0 then
              {''fold''} \<union> (if stack p \<ge> to_call then {''call''} else {})
                         \<union> (if stack p > to_call then {''raise''} else {})
                         \<union> (if stack p > 0 then {''allin''} else {})
            else
              {''check''} \<union> (if stack p > 0 then {''bet'', ''allin''} else {})))"
proof -
  have lt: "idx < length (players e)" using assms by (rule find_player_index_lt)
  then have ne: "players e \<noteq> []" by auto
  have mx: "py_max (map committed (players e)) = Inr (Max (committed ` set (players e)))"
    using ne by (simp add: py_max_Max)
  have "committed (players e ! idx) \<in> committed ` set (players e)" using lt by simp
  then have ge: "committed (players e ! idx) \<le> Max (committed ` set (players e))" by simp
  show ?thesis using assms mx ge
    by (auto simp: legal_actions_def Let_def)
qed

theorem legal_actions_spec_witness:
  "find_player_index two_seats_dealt ''alice'' = Inr 0
   \<and> legal_actions two_seats_dealt ''alice'' = Inr [''fold'', ''call'', ''raise'', ''allin'']
   \<and> find_player_index two_seats_called ''bob'' = Inr 1
   \<and> legal_actions two_seats_called ''bob'' = Inr [''check'', ''bet'', ''allin'']
   \<and> legal_actions two_seats_won ''bob'' = Inr []"
proof -
  have h: "find_player_index two_seats_dealt ''alice'' = Inr 0" by code_simp
  have a: "legal_actions two_seats_dealt ''alice'' = Inr [''fold'', ''call'', ''raise'', ''allin'']"
    by code_simp
  have h2: "find_player_index two_seats_called ''bob'' = Inr 1" by code_simp
  have b: "legal_actions two_seats_called ''bob'' = Inr [''check'', ''bet'', ''allin'']"
    by code_simp
  have c: "legal_actions two_seats_won ''bob'' = Inr []" by code_simp
  show ?thesis
    using legal_actions_spec[OF h] legal_actions_spec[OF h2] h a h2 b c
    by - (intro conjI, assumption+)
qed

lemma find_from_absent:
  "(\<forall>p\<in>set ps. player_id p \<noteq> pid) \<Longrightarrow> find_from ps pid i = Inl (KeyError pid)"
  by (induction ps arbitrary: i) auto

lemma legal_actions_total:
  assumes "find_player_index e pid = Inr idx"
  shows "\<exists>acts. legal_actions e pid = Inr acts"
proof -
  have "idx < length (players e)" using assms by (rule find_player_index_lt)
  then have "players e \<noteq> []" by auto
  then have "py_max (map committed (players e)) = Inr (Max (committed ` set (players e)))"
    by (simp add: py_max_Max)
  then show ?thesis using assms by (simp add: legal_actions_def Let_def)
qed

lemma finish_action_reply:
  "finish_action ev e = Inr (r, e') \<Longrightarrow> \<exists>ph. phase e' = Some ph \<and> r = Ok ph (total_pot e')"
  by (auto simp: finish_action_def Let_def bind_exn_def split: sum.splits option.splits)

lemma apply_action_error_unchanged:
  assumes "apply_action ev e pid action amount = Inr (Error msg, e')"
  shows "e' = e"
proof -
  have fin: "\<And>x. finish_action ev x \<noteq> Inr (Error msg, e')"
    using finish_action_reply by fastforce
  show ?thesis
    using assms fin
    by (auto simp: apply_action_def Let_def bind_exn_def raised_in_def
             split: if_splits sum.splits)
qed

text \<open>
  Claim C5. For a known seat, a request whose action name is not in the seat's legal
  set, or a bet or raise whose amount is \<open>\<le>\<close> 0 or above the stack, is answered
  with an error, and the engine returned with the error is the engine before the call,
  every field of it. More generally every error reply leaves the engine unchanged.
\<close>

theorem apply_action_rejects:
  assumes idx: "find_player_index e pid = Inr idx"
    and legal: "legal_actions e pid = Inr legal"
    and bad: "action \<notin> set legal
              \<or> ((action = ''bet'' \<or> action = ''raise'')
                  \<and> (amount \<le> 0 \<or> amount > stack (players e ! idx)))"
  shows "(\<exists>msg. apply_action ev e pid action amount = Inr (Error msg, e))
         \<and> (\<forall>msg e'. apply_action ev e pid action amount = Inr (Error msg, e') \<longrightarrow> e' = e)"
proof
  have "idx < length (players e)" using idx by (rule find_player_index_lt)
  then have "players e \<noteq> []" by auto
  then have mx: "py_max (map committed (players e)) = Inr (Max (committed ` set (players e)))"
    by (simp add: py_max_Max)
  show "\<exists>msg. apply_action ev e pid action amount = Inr (Error msg, e)"
    using idx legal bad mx by (auto simp: apply_action_def Let_def)
next
  show "\<forall>msg e'. apply_action ev e pid action amount = Inr (Error msg, e') \<longrightarrow> e' = e"
    using apply_action_error_unchanged by blast
qed

theorem apply_action_rejects_witness:
  "find_player_index two_seats_dealt ''alice'' = Inr 0
   \<and> legal_actions two_seats_dealt ''alice'' = Inr [''fold'', ''call'', ''raise'', ''allin'']
   \<and> apply_action flat_eval two_seats_dealt ''alice'' ''check'' 0
       = Inr (Error (IllegalAction ''check'' [''fold'', ''call'', ''raise'', ''allin'']), two_seats_dealt)
   \<and> apply_action flat_eval two_seats_dealt ''alice'' ''raise'' 5000
       = Inr (Error InvalidRaiseAmount, two_seats_dealt)
   \<and> apply_action flat_eval two_seats_dealt ''alice'' ''raise'' 0
       = Inr (Error InvalidRaiseAmount, two_seats_dealt)"
proof -
  have h: "find_player_index two_seats_dealt ''alice'' = Inr 0" by code_simp
  have l: "legal_actions two_seats_dealt ''alice'' = Inr [''fold'', ''call'', ''raise'', ''allin'']"
    by code_simp
  have bad: "''check'' \<notin> set [''fold'', ''call'', ''raise'', ''allin'']
             \<or> ((''check'' = ''bet'' \<or> ''check'' = ''raise'')
                 \<and> (0 \<le> (0::int) \<or> 0 > stack (players two_seats_dealt ! 0)))"
    by simp
  have a: "apply_action flat_eval two_seats_dealt ''alice'' ''check'' 0
       = Inr (Error (IllegalAction ''check'' [''fold'', ''call'', ''raise'', ''allin'']), two_seats_dealt)"
    by code_simp
  have b: "apply_action flat_eval two_seats_dealt ''alice'' ''raise'' 5000
       = Inr (Error InvalidRaiseAmount, two_seats_dealt)"
    by code_simp
  have c: "apply_action flat_eval two_seats_dealt ''alice'' ''raise'' 0
       = Inr (Error InvalidRaiseAmount, two_seats_dealt)"
    by code_simp
  show ?thesis
    using apply_action_rejects[OF h l bad, of flat_eval] h l a b c
    by - (intro conjI, assumption+)
qed

text \<open>
  Claim C9, as the code has it. With no active hand (phase unset or COMPLETED) the call
  returns the error reply "No active hand" and the engine unchanged, whatever the seat
  identifier. With an active hand and an unknown seat identifier the call does not return:
  find\_player\_index raises KeyError with the identifier, and the engine at the raise is the
  engine before the call.
\<close>

theorem structural_errors:
  "(phase e = None \<or> phase e = Some COMPLETED
      \<longrightarrow> apply_action ev e pid action amount = Inr (Error NoActiveHand, e))
   \<and> (phase e \<noteq> None \<and> phase e \<noteq> Some COMPLETED \<and> (\<forall>p\<in>set (players e). player_id p \<noteq> pid)
      \<longrightarrow> apply_action ev e pid action amount = Inl (KeyError pid, e))"
  by (auto simp: apply_action_def find_player_index_def find_from_absent)

theorem structural_errors_witness:
  "phase two_seats = None
   \<and> apply_action flat_eval two_seats ''alice'' ''fold'' 0 = Inr (Error NoActiveHand, two_seats)
   \<and> phase two_seats_dealt \<noteq> None \<and> phase two_seats_dealt \<noteq> Some COMPLETED
   \<and> list_all (\<lambda>p. player_id p \<noteq> ''dave'') (players two_seats_dealt)
   \<and> apply_action flat_eval two_seats_dealt ''dave'' ''check'' 0
       = Inl (KeyError ''dave'', two_seats_dealt)"
proof -
  have h1: "phase two_seats = None" by (simp add: two_seats_def)
  have h2: "phase two_seats_dealt \<noteq> None" and h3: "phase two_seats_dealt \<noteq> Some COMPLETED"
    by (simp_all add: two_seats_dealt_def)
  have h4: "\<forall>p\<in>set (players two_seats_dealt). player_id p \<noteq> ''dave''"
    by (simp add: two_seats_dealt_def seat_state_def)
  have a: "apply_action flat_eval two_seats ''alice'' ''fold'' 0 = Inr (Error NoActiveHand, two_seats)"
    using structural_errors[of two_seats flat_eval "''alice''" "''fold''" 0] h1 by simp
  have b: "apply_action flat_eval two_seats_dealt ''dave'' ''check'' 0
             = Inl (KeyError ''dave'', two_seats_dealt)"
    using structural_errors[of two_seats_dealt flat_eval "''dave''" "''check''" 0] h2 h3 h4 by simp
  have w4: "list_all (\<lambda>p. player_id p \<noteq> ''dave'') (players two_seats_dealt)"
    using h4 by (simp add: list_all_iff)
  show ?thesis
    using h1 h2 h3 w4 a b by - (intro conjI, assumption+)
qed

text \<open>
  Claim C9 as stated fails for an unknown seat: the call on a dealt hand for a seat
  that is not at the table ends in the exception KeyError, not in an error reply.
\<close>

theorem unknown_seat_counterexample:
  "apply_action flat_eval two_seats_dealt ''carol'' ''fold'' 0
     = Inl (KeyError ''carol'', two_seats_dealt)"
  by code_simp

lemma static_part_fields [simp]:
  "committed (static_part p) = committed p"
  "is_all_in (static_part p) = is_all_in p"
  "is_folded (static_part p) = is_folded p"
  "player_id (static_part p) = player_id p"
  "hole_cards (static_part p) = hole_cards p"
  by (simp_all add: static_part_def)

lemma keeps_length: "keeps e e' \<Longrightarrow> length (players e') = length (players e)"
  unfolding keeps_def by (metis length_map)

lemma keeps_nth:
  assumes "keeps e e'" and "i < length (players e)"
  shows "committed (players e' ! i) = committed (players e ! i)
         \<and> is_all_in (players e' ! i) = is_all_in (players e ! i)
         \<and> is_folded (players e' ! i) = is_folded (players e ! i)
         \<and> player_id (players e' ! i) = player_id (players e ! i)
         \<and> hole_cards (players e' ! i) = hole_cards (players e ! i)"
proof -
  have len: "length (players e') = length (players e)" using assms(1) by (rule keeps_length)
  have "static_part (players e' ! i) = map static_part (players e') ! i"
    using assms(2) len by simp
  also have "\<dots> = map static_part (players e) ! i" using assms(1) by (simp add: keeps_def)
  also have "\<dots> = static_part (players e ! i)" using assms(2) by simp
  finally have "static_part (players e' ! i) = static_part (players e ! i)" .
  then show ?thesis by (metis static_part_fields)
qed

lemma keeps_refl: "keeps e e"
  by (simp add: keeps_def)

lemma keeps_trans: "keeps a b \<Longrightarrow> keeps b c \<Longrightarrow> keeps a c"
  by (simp add: keeps_def)

lemma sum_list_map_update:
  fixes f :: "'a \<Rightarrow> int"
  shows "i < length xs \<Longrightarrow> sum_list (map f (xs[i := y])) = sum_list (map f xs) - f (xs ! i) + f y"
proof (induction xs arbitrary: i)
  case Nil
  then show ?case by simp
next
  case (Cons x xs)
  then show ?case by (cases i) simp_all
qed

lemma add_stack_length [simp]: "length (add_stack a i ps) = length ps"
  by (simp add: add_stack_def)

lemma add_stack_sum:
  "i < length ps \<Longrightarrow> sum_list (map stack (add_stack a i ps)) = sum_list (map stack ps) + a"
  by (simp add: add_stack_def sum_list_map_update)

lemma add_stack_static: "map static_part (add_stack a i ps) = map static_part ps"
proof (cases "i < length ps")
  case True
  have "map static_part (add_stack a i ps) = (map static_part ps)[i := static_part (ps ! i)]"
    by (simp add: add_stack_def map_update static_part_def)
  also have "\<dots> = map static_part ps"
    using True by (metis list_update_id nth_map)
  finally show ?thesis .
next
  case False
  then show ?thesis by (simp add: add_stack_def not_less list_update_beyond)
qed

lemma add_stack_nonneg:
  assumes "\<forall>p\<in>set ps. 0 \<le> stack p" and "0 \<le> a"
  shows "\<forall>p\<in>set (add_stack a i ps). 0 \<le> stack p"
proof (cases "i < length ps")
  case True
  then have "0 \<le> stack (ps ! i)" using assms(1) by simp
  then have "0 \<le> stack ((ps ! i)\<lparr>stack := stack (ps ! i) + a\<rparr>)" using assms(2) by simp
  moreover have "set (add_stack a i ps) \<subseteq> insert ((ps ! i)\<lparr>stack := stack (ps ! i) + a\<rparr>) (set ps)"
    unfolding add_stack_def by (rule set_update_subset_insert)
  ultimately show ?thesis using assms(1) by auto
next
  case False
  then show ?thesis using assms(1) by (simp add: add_stack_def not_less list_update_beyond)
qed

lemma fold_add_stack_length [simp]: "length (fold (add_stack a) is ps) = length ps"
  by (induction "is" arbitrary: ps) simp_all

lemma fold_add_stack_sum:
  "\<forall>i\<in>set is. i < length ps \<Longrightarrow>
   sum_list (map stack (fold (add_stack a) is ps)) = sum_list (map stack ps) + a * int (length is)"
proof (induction "is" arbitrary: ps)
  case Nil
  then show ?case by simp
next
  case (Cons i "is")
  have "sum_list (map stack (fold (add_stack a) is (add_stack a i ps)))
        = sum_list (map stack (add_stack a i ps)) + a * int (length is)"
    using Cons.prems by (intro Cons.IH) simp
  also have "\<dots> = sum_list (map stack ps) + a + a * int (length is)"
    using Cons.prems by (simp add: add_stack_sum)
  finally show ?case by (simp add: algebra_simps)
qed

lemma fold_add_stack_static: "map static_part (fold (add_stack a) is ps) = map static_part ps"
  by (induction "is" arbitrary: ps) (simp_all add: add_stack_static)

lemma fold_add_stack_nonneg:
  "\<forall>p\<in>set ps. 0 \<le> stack p \<Longrightarrow> 0 \<le> a \<Longrightarrow> \<forall>p\<in>set (fold (add_stack a) is ps). 0 \<le> stack p"
proof (induction "is" arbitrary: ps)
  case Nil
  then show ?case by simp
next
  case (Cons i "is")
  have "\<forall>p\<in>set (add_stack a i ps). 0 \<le> stack p"
    using Cons.prems by (intro add_stack_nonneg) auto
  from Cons.IH[OF this Cons.prems(2)] show ?case by simp
qed

lemma unfolded_seats_lt: "i \<in> set (unfolded_seats e) \<Longrightarrow> i < length (players e)"
  by (simp add: unfolded_seats_def)

lemma co_winners_subset: "set (co_winners ev e) \<subseteq> set (unfolded_seats e)"
  by (auto simp: co_winners_def)

lemma co_winners_lt: "i \<in> set (co_winners ev e) \<Longrightarrow> i < length (players e)"
  using co_winners_subset unfolded_seats_lt by blast

lemma co_winners_nonempty:
  assumes "unfolded_seats e \<noteq> []"
  shows "co_winners ev e \<noteq> []"
proof -
  have "Min (seat_score ev e ` set (unfolded_seats e)) \<in> seat_score ev e ` set (unfolded_seats e)"
    using assms by (intro Min_in) auto
  then obtain i where "i \<in> set (unfolded_seats e)"
    and "seat_score ev e i = Min (seat_score ev e ` set (unfolded_seats e))" by auto
  then have "i \<in> set (co_winners ev e)" by (simp add: co_winners_def)
  then show ?thesis by auto
qed

lemma co_winners_sorted_distinct: "sorted (co_winners ev e) \<and> distinct (co_winners ev e)"
  by (simp add: co_winners_def unfolded_seats_def sorted_wrt_filter)

lemma co_winners_first:
  assumes "unfolded_seats e \<noteq> []"
  shows "co_winners ev e ! 0 = Min (set (co_winners ev e))"
proof -
  obtain w ws where W: "co_winners ev e = w # ws"
    using co_winners_nonempty[OF assms] by (cases "co_winners ev e") auto
  have "sorted (w # ws)" using co_winners_sorted_distinct[of ev e] W by simp
  then have "\<forall>x\<in>set ws. w \<le> x" by simp
  then have "Min (set (w # ws)) = w" by (intro Min_eqI) auto
  with W show ?thesis by simp
qed

lemma sorted_scores_tied:
  fixes sc :: "nat \<Rightarrow> int"
  assumes "sort_key fst (map (\<lambda>i. (sc i, i)) us) = (b, w) # rest"
  shows "b = Min (sc ` set us)"
    and "map snd (filter (\<lambda>(s, i). s = b) (sort_key fst (map (\<lambda>i. (sc i, i)) us)))
         = filter (\<lambda>i. sc i = b) us"
proof -
  let ?xs = "map (\<lambda>i. (sc i, i)) us"
  have srt: "sorted (map fst (sort_key fst ?xs))" by (rule sorted_sort_key)
  then have le: "\<forall>y\<in>set rest. b \<le> fst y" using assms by auto
  have setq: "set ((b, w) # rest) = set ?xs" using assms set_sort[of fst ?xs] by simp
  then have img: "fst ` set ((b, w) # rest) = sc ` set us" by (simp add: image_image)
  have "Min (fst ` set ((b, w) # rest)) = b"
    using le by (intro Min_eqI) auto
  with img show "b = Min (sc ` set us)" by simp
  have "filter (\<lambda>(s, i). s = b) (sort_key fst ?xs) = filter (\<lambda>y. fst y = b) (sort_key fst ?xs)"
    by (rule filter_cong) auto
  also have "\<dots> = filter (\<lambda>y. fst y = b) ?xs" by (rule sort_key_stable)
  also have "\<dots> = map (\<lambda>i. (sc i, i)) (filter (\<lambda>i. sc i = b) us)"
    by (simp add: filter_map comp_def)
  finally show "map snd (filter (\<lambda>(s, i). s = b) (sort_key fst ?xs)) = filter (\<lambda>i. sc i = b) us"
    by (simp add: comp_def)
qed

lemma evaluate_single:
  assumes "unfolded_seats e = [w]"
  shows "evaluate_and_distribute ev e =
           Inr (e\<lparr>players := add_stack (total_pot e) w (players e),
                  pot_history := pot_history e @ [SinglePot (player_id (players e ! w)) (total_pot e)],
                  total_pot := 0\<rparr>)"
  using assms by (simp add: evaluate_and_distribute_def unfolded_seats_def Let_def)

lemma evaluate_none:
  assumes "unfolded_seats e = []"
  shows "evaluate_and_distribute ev e = Inl (IndexError, e)"
  using assms by (simp add: evaluate_and_distribute_def unfolded_seats_def Let_def)

lemma evaluate_split:
  assumes "length (unfolded_seats e) \<noteq> 1" and "unfolded_seats e \<noteq> []"
  shows "evaluate_and_distribute ev e =
           Inr (e\<lparr>players := add_stack (total_pot e mod int (length (co_winners ev e))) (co_winners ev e ! 0)
                               (fold (add_stack (total_pot e div int (length (co_winners ev e))))
                                  (co_winners ev e) (players e)),
                  pot_history := pot_history e
                    @ [SplitPot (map (\<lambda>i. player_id (players e ! i)) (co_winners ev e))
                         (total_pot e div int (length (co_winners ev e)))
                         (total_pot e mod int (length (co_winners ev e)))],
                  total_pot := 0\<rparr>)"
proof -
  let ?us = "unfolded_seats e"
  let ?sc = "seat_score ev e"
  let ?scores = "sort_key fst (map (\<lambda>i. (?sc i, i)) ?us)"
  have "length ?scores = length ?us" by simp
  then have "?scores \<noteq> []" using assms(2) by (metis length_0_conv)
  then obtain b w rest where sc: "?scores = (b, w) # rest"
    by (cases ?scores) auto
  from sorted_scores_tied[OF sc]
  have b: "b = Min (?sc ` set ?us)"
    and tied: "map snd (filter (\<lambda>(s, i). s = b) ?scores) = co_winners ev e"
    by (simp_all add: co_winners_def)
  have sc': "sort_key fst (map (\<lambda>i. (ev (community_cards e) (hole_cards (players e ! i)), i))
               (filter (\<lambda>i. \<not> is_folded (players e ! i)) [0..<length (players e)])) = (b, w) # rest"
    using sc by (simp add: seat_score_def unfolded_seats_def)
  have tied': "map snd (filter (\<lambda>(s, i). s = b) ((b, w) # rest)) = co_winners ev e"
    using tied sc by simp
  have len: "length (filter (\<lambda>i. \<not> is_folded (players e ! i)) [0..<length (players e)]) \<noteq> 1"
    using assms(1) by (simp add: unfolded_seats_def)
  show ?thesis
    unfolding evaluate_and_distribute_def Let_def
    using len by (simp only: sc' tied' if_False list.case prod.case)
qed

declare fast_forward.simps [simp del]

lemma keeps_phase_update [simp]:
  "keeps e (e'\<lparr>phase := x\<rparr>) = keeps e e'"
  "keeps (e\<lparr>phase := x\<rparr>) e' = keeps e e'"
  by (simp_all add: keeps_def stacks_total_def solvent_def)

lemma evaluate_keeps:
  assumes "evaluate_and_distribute ev e = Inr e'"
  shows "keeps e e' \<and> total_pot e' = 0 \<and> phase e' = phase e"
proof -
  consider (none) "unfolded_seats e = []"
    | (single) w where "unfolded_seats e = [w]"
    | (split) "length (unfolded_seats e) \<noteq> 1" "unfolded_seats e \<noteq> []"
    by (cases "unfolded_seats e"; cases "tl (unfolded_seats e)") auto
  then show ?thesis
  proof cases
    case none
    then show ?thesis using assms by (simp add: evaluate_none)
  next
    case single
    then have "w \<in> set (unfolded_seats e)" by simp
    then have lt: "w < length (players e)" by (rule unfolded_seats_lt)
    have e': "e' = e\<lparr>players := add_stack (total_pot e) w (players e),
                     pot_history := pot_history e @ [SinglePot (player_id (players e ! w)) (total_pot e)],
                     total_pot := 0\<rparr>"
      using assms evaluate_single[OF single] by simp
    have nonneg: "\<forall>p\<in>set (add_stack (total_pot e) w (players e)). 0 \<le> stack p"
      if "\<forall>p\<in>set (players e). 0 \<le> stack p" "0 \<le> total_pot e"
      using that by (rule add_stack_nonneg)
    show ?thesis
      unfolding e' using lt nonneg
      by (simp add: keeps_def stacks_total_def solvent_def add_stack_sum add_stack_static)
  next
    case split
    let ?W = "co_winners ev e"
    let ?k = "int (length ?W)"
    have ne: "?W \<noteq> []" using split(2) by (rule co_winners_nonempty)
    then have kpos: "0 < ?k" by simp
    have inr: "\<forall>i\<in>set ?W. i < length (players e)" using co_winners_lt by blast
    have "?W ! 0 \<in> set ?W" using ne by simp
    then have first: "?W ! 0 < length (players e)" using inr by blast
    let ?ps1 = "fold (add_stack (total_pot e div ?k)) ?W (players e)"
    let ?ps2 = "add_stack (total_pot e mod ?k) (?W ! 0) ?ps1"
    have e': "e' = e\<lparr>players := ?ps2,
                     pot_history := pot_history e
                       @ [SplitPot (map (\<lambda>i. player_id (players e ! i)) ?W)
                            (total_pot e div ?k) (total_pot e mod ?k)],
                     total_pot := 0\<rparr>"
      using assms evaluate_split[OF split] by simp
    have "sum_list (map stack ?ps2) = sum_list (map stack ?ps1) + total_pot e mod ?k"
      using first by (simp add: add_stack_sum)
    also have "\<dots> = sum_list (map stack (players e)) + total_pot e div ?k * ?k + total_pot e mod ?k"
      using inr by (simp add: fold_add_stack_sum)
    also have "\<dots> = sum_list (map stack (players e)) + total_pot e"
      by (simp add: add.assoc)
    finally have sum: "sum_list (map stack ?ps2) = sum_list (map stack (players e)) + total_pot e" .
    have static: "map static_part ?ps2 = map static_part (players e)"
      by (simp add: add_stack_static fold_add_stack_static)
    have nonneg: "\<forall>p\<in>set ?ps2. 0 \<le> stack p"
      if "\<forall>p\<in>set (players e). 0 \<le> stack p" "0 \<le> total_pot e"
    proof -
      have "0 \<le> total_pot e div ?k" using that(2) kpos by (simp add: pos_imp_zdiv_nonneg_iff)
      then have "\<forall>p\<in>set ?ps1. 0 \<le> stack p" using that(1) by (intro fold_add_stack_nonneg)
      moreover have "0 \<le> total_pot e mod ?k" using kpos by simp
      ultimately show ?thesis by (intro add_stack_nonneg)
    qed
    show ?thesis
      unfolding e' using sum static nonneg
      by (simp add: keeps_def stacks_total_def solvent_def)
  qed
qed

lemma showdown_keeps:
  assumes "showdown ev e = Inr e'"
  shows "keeps e e' \<and> total_pot e' = 0 \<and> phase e' = Some COMPLETED"
  using assms evaluate_keeps
  by (fastforce simp: showdown_def bind_exn_def split: sum.splits)

lemma deal_street_Inr:
  "deal_street e = Inr e' \<longleftrightarrow>
     (\<exists>b c rest. deck e = b # c # rest
        \<and> e' = e\<lparr>deck := rest, community_cards := community_cards e @ [c]\<rparr>)"
  by (auto simp: deal_street_def deck_pop_def split: list.splits)

lemma deal_flop_Inr:
  "deal_flop e = Inr e' \<longleftrightarrow>
     (\<exists>b c1 c2 c3 rest. deck e = b # c1 # c2 # c3 # rest
        \<and> e' = e\<lparr>deck := rest, community_cards := community_cards e @ [c1, c2, c3]\<rparr>)"
  by (auto simp: deal_flop_def deck_pop_def split: list.splits)

lemma deal_street_keeps: "deal_street e = Inr e' \<Longrightarrow> keeps e e' \<and> phase e' = phase e \<and> total_pot e' = total_pot e"
  by (auto simp: deal_street_Inr keeps_def stacks_total_def solvent_def)

lemma deal_flop_keeps: "deal_flop e = Inr e' \<Longrightarrow> keeps e e' \<and> phase e' = phase e \<and> total_pot e' = total_pot e"
  by (auto simp: deal_flop_Inr keeps_def stacks_total_def solvent_def)

lemma next_phase_simps [simp]:
  "next_phase None = Inl ValueError"
  "next_phase (Some PRE_FLOP) = Inr FLOP"
  "next_phase (Some FLOP) = Inr TURN"
  "next_phase (Some TURN) = Inr RIVER"
  "next_phase (Some RIVER) = Inr SHOWDOWN"
  "next_phase (Some SHOWDOWN) = Inr COMPLETED"
  "next_phase (Some COMPLETED) = Inl IndexError"
  by (simp_all add: next_phase_def phase_order_def)

lemma fast_forward_done:
  "phase e = Some SHOWDOWN \<or> phase e = Some COMPLETED \<Longrightarrow> fast_forward ev e = Inr e"
  by (simp add: fast_forward.simps)

lemma fast_forward_river:
  "phase e = Some RIVER \<Longrightarrow> fast_forward ev e = showdown ev (e\<lparr>phase := Some SHOWDOWN\<rparr>)"
  by (simp add: fast_forward.simps)

lemma fast_forward_turn:
  assumes "phase e = Some TURN"
  shows "fast_forward ev e =
           bind_exn (deal_street (e\<lparr>phase := Some RIVER\<rparr>)) (\<lambda>e2.
             showdown ev (e2\<lparr>phase := Some SHOWDOWN\<rparr>))"
proof (cases "deal_street (e\<lparr>phase := Some RIVER\<rparr>)")
  case (Inl x)
  then show ?thesis using assms by (simp add: fast_forward.simps[of ev e])
next
  case (Inr e2)
  then have "phase e2 = Some RIVER" using deal_street_keeps[OF Inr] by simp
  then show ?thesis using assms Inr by (simp add: fast_forward.simps[of ev e] fast_forward_river)
qed

lemma fast_forward_flop:
  assumes "phase e = Some FLOP"
  shows "fast_forward ev e =
           bind_exn (deal_street (e\<lparr>phase := Some TURN\<rparr>)) (\<lambda>e2.
           bind_exn (deal_street (e2\<lparr>phase := Some RIVER\<rparr>)) (\<lambda>e3.
             showdown ev (e3\<lparr>phase := Some SHOWDOWN\<rparr>)))"
proof (cases "deal_street (e\<lparr>phase := Some TURN\<rparr>)")
  case (Inl x)
  then show ?thesis using assms by (simp add: fast_forward.simps[of ev e])
next
  case (Inr e2)
  then have "phase e2 = Some TURN" using deal_street_keeps[OF Inr] by simp
  then show ?thesis using assms Inr by (simp add: fast_forward.simps[of ev e] fast_forward_turn)
qed

lemma fast_forward_preflop:
  assumes "phase e = Some PRE_FLOP"
  shows "fast_forward ev e = fast_forward ev (e\<lparr>phase := Some FLOP\<rparr>)"
  using assms by (simp add: fast_forward.simps[of ev e])

lemma fast_forward_none:
  "phase e = None \<Longrightarrow> fast_forward ev e = Inl (ValueError, e)"
  by (simp add: fast_forward.simps[of ev e])

lemma fast_forward_keeps:
  assumes "fast_forward ev e = Inr e'"
  shows "keeps e e' \<and> (phase e \<noteq> Some SHOWDOWN \<and> phase e \<noteq> Some COMPLETED
                        \<longrightarrow> phase e' = Some COMPLETED \<and> total_pot e' = 0)"
proof -
  have river: "keeps x x' \<and> phase x' = Some COMPLETED \<and> total_pot x' = 0"
    if "phase x = Some RIVER" "fast_forward ev x = Inr x'" for x x'
    using that showdown_keeps[of ev "x\<lparr>phase := Some SHOWDOWN\<rparr>" x']
    by (simp add: fast_forward_river)
  have turn: "keeps x x' \<and> phase x' = Some COMPLETED \<and> total_pot x' = 0"
    if "phase x = Some TURN" "fast_forward ev x = Inr x'" for x x'
  proof -
    from that obtain x2 where d: "deal_street (x\<lparr>phase := Some RIVER\<rparr>) = Inr x2"
      and s: "showdown ev (x2\<lparr>phase := Some SHOWDOWN\<rparr>) = Inr x'"
      by (auto simp: fast_forward_turn bind_exn_def split: sum.splits)
    from deal_street_keeps[OF d] showdown_keeps[OF s] show ?thesis
      using keeps_trans by fastforce
  qed
  have flop: "keeps x x' \<and> phase x' = Some COMPLETED \<and> total_pot x' = 0"
    if "phase x = Some FLOP" "fast_forward ev x = Inr x'" for x x'
  proof -
    from that obtain x2 x3 where d: "deal_street (x\<lparr>phase := Some TURN\<rparr>) = Inr x2"
      and d2: "deal_street (x2\<lparr>phase := Some RIVER\<rparr>) = Inr x3"
      and s: "showdown ev (x3\<lparr>phase := Some SHOWDOWN\<rparr>) = Inr x'"
      by (auto simp: fast_forward_flop bind_exn_def split: sum.splits)
    from deal_street_keeps[OF d] deal_street_keeps[OF d2] showdown_keeps[OF s]
    have "keeps x x2" "keeps x2 x3" "keeps x3 x'" "phase x' = Some COMPLETED" "total_pot x' = 0"
      by simp_all
    then show ?thesis using keeps_trans by blast
  qed
  show ?thesis
  proof (cases "phase e")
    case None
    then show ?thesis using assms by (simp add: fast_forward_none)
  next
    case (Some ph)
    show ?thesis
    proof (cases ph)
      case PRE_FLOP
      then have "fast_forward ev (e\<lparr>phase := Some FLOP\<rparr>) = Inr e'"
        using assms Some by (simp add: fast_forward_preflop)
      from flop[OF _ this] show ?thesis by simp
    next
      case FLOP
      then show ?thesis using flop[of e e'] assms Some by simp
    next
      case TURN
      then show ?thesis using turn[of e e'] assms Some by simp
    next
      case RIVER
      then show ?thesis using river[of e e'] assms Some by simp
    next
      case SHOWDOWN
      then show ?thesis using assms Some by (simp add: fast_forward_done keeps_refl)
    next
      case COMPLETED
      then show ?thesis using assms Some by (simp add: fast_forward_done keeps_refl)
    qed
  qed
qed

lemma keeps_committed_total:
  assumes "keeps e e'"
  shows "committed_total e' = committed_total e"
proof -
  have "map committed (players e') = map (committed \<circ> static_part) (players e')"
    by (simp add: static_part_def comp_def)
  also have "\<dots> = map committed (map static_part (players e'))" by simp
  also have "\<dots> = map committed (map static_part (players e))" using assms by (simp add: keeps_def)
  also have "\<dots> = map committed (players e)" by (simp add: static_part_def comp_def)
  finally show ?thesis by (simp add: committed_total_def)
qed

lemma advance_phase_keeps:
  assumes "advance_phase ev e = Inr e'"
  shows "keeps e e' \<and> (in_play (phase e) \<longrightarrow> settles e e')"
proof -
  have tail: "keeps x e' \<and> settles x e'"
    if "in_play (phase x)" and "(if length (filter can_act (players x)) = 0 then fast_forward ev x else Inr x) = Inr e'"
    for x
  proof (cases "length (filter can_act (players x)) = 0")
    case True
    then have "fast_forward ev x = Inr e'" using that(2) by simp
    from fast_forward_keeps[OF this] that(1) show ?thesis
      by (auto simp: settles_def in_play_def)
  next
    case False
    then have "e' = x" using that(2) by simp
    then show ?thesis using that(1) by (simp add: keeps_refl settles_def)
  qed
  show ?thesis
  proof (cases "phase e")
    case None
    then show ?thesis using assms by (simp add: advance_phase_def)
  next
    case (Some ph)
    show ?thesis
    proof (cases ph)
      case PRE_FLOP
      with Some assms obtain e2 where d: "deal_flop (e\<lparr>phase := Some FLOP\<rparr>) = Inr e2"
        and t: "(if length (filter can_act (players e2)) = 0 then fast_forward ev e2 else Inr e2) = Inr e'"
        by (auto simp: advance_phase_def Let_def bind_exn_def split: sum.splits)
      from deal_flop_keeps[OF d] have k: "keeps e e2" and p: "in_play (phase e2)"
        and q: "total_pot e2 = total_pot e"
        by (simp_all add: in_play_def)
      from tail[OF p t] k q show ?thesis using keeps_trans by (auto simp: settles_def)
    next
      case FLOP
      with Some assms obtain e2 where d: "deal_street (e\<lparr>phase := Some TURN\<rparr>) = Inr e2"
        and t: "(if length (filter can_act (players e2)) = 0 then fast_forward ev e2 else Inr e2) = Inr e'"
        by (auto simp: advance_phase_def Let_def bind_exn_def split: sum.splits)
      from deal_street_keeps[OF d] have k: "keeps e e2" and p: "in_play (phase e2)"
        and q: "total_pot e2 = total_pot e"
        by (simp_all add: in_play_def)
      from tail[OF p t] k q show ?thesis using keeps_trans by (auto simp: settles_def)
    next
      case TURN
      with Some assms obtain e2 where d: "deal_street (e\<lparr>phase := Some RIVER\<rparr>) = Inr e2"
        and t: "(if length (filter can_act (players e2)) = 0 then fast_forward ev e2 else Inr e2) = Inr e'"
        by (auto simp: advance_phase_def Let_def bind_exn_def split: sum.splits)
      from deal_street_keeps[OF d] have k: "keeps e e2" and p: "in_play (phase e2)"
        and q: "total_pot e2 = total_pot e"
        by (simp_all add: in_play_def)
      from tail[OF p t] k q show ?thesis using keeps_trans by (auto simp: settles_def)
    next
      case RIVER
      with Some assms have "showdown ev (e\<lparr>phase := Some SHOWDOWN\<rparr>) = Inr e'"
        by (simp add: advance_phase_def)
      from showdown_keeps[OF this] show ?thesis by (simp add: settles_def)
    next
      case SHOWDOWN
      with Some assms have "e' = e\<lparr>phase := Some COMPLETED\<rparr>"
        by (auto simp: advance_phase_def Let_def fast_forward_done split: if_splits)
      then show ?thesis using Some SHOWDOWN by (simp add: keeps_refl in_play_def)
    next
      case COMPLETED
      then show ?thesis using assms Some by (simp add: advance_phase_def)
    qed
  qed
qed

lemma advance_turn_keeps:
  "keeps e (advance_turn e) \<and> phase (advance_turn e) = phase e \<and> total_pot (advance_turn e) = total_pot e
   \<and> players (advance_turn e) = players e"
  by (simp add: advance_turn_def Let_def keeps_def stacks_total_def solvent_def split: option.splits)

lemma finish_action_keeps:
  assumes "finish_action ev e = Inr (r, e')"
  shows "keeps e e' \<and> (in_play (phase e) \<longrightarrow> settles e e')"
proof -
  let ?e1 = "advance_turn e"
  from assms obtain complete where c: "is_betting_round_complete ?e1 = Inr complete"
    and a: "(if complete then advance_phase ev ?e1 else Inr ?e1) = Inr e'"
    by (auto simp: finish_action_def Let_def bind_exn_def raised_in_def split: sum.splits option.splits)
  have k1: "keeps e ?e1" and ph: "phase ?e1 = phase e" and pt: "total_pot ?e1 = total_pot e"
    using advance_turn_keeps[of e] by simp_all
  show ?thesis
  proof (cases complete)
    case True
    then have "advance_phase ev ?e1 = Inr e'" using a by simp
    from advance_phase_keeps[OF this] k1 ph pt show ?thesis
      using keeps_trans by (auto simp: settles_def)
  next
    case False
    then have "e' = ?e1" using a by simp
    then show ?thesis using k1 ph pt by (simp add: settles_def)
  qed
qed

lemma transfers_refl: "transfers e e"
  by (simp add: transfers_def)

lemma transfers_trans: "transfers a b \<Longrightarrow> transfers b c \<Longrightarrow> transfers a c"
  by (simp add: transfers_def)

lemma transfers_log [simp]:
  "transfers e (log_action a e1) = transfers e e1"
  "transfers (log_action a e) e1 = transfers e e1"
  by (simp_all add: transfers_def log_action_def stacks_total_def committed_total_def)

lemma solvent_log [simp]: "solvent (log_action a e) = solvent e"
  by (simp add: solvent_def log_action_def)

lemma moved_refl: "moved e e"
  by (simp add: moved_def transfers_def)

lemma moved_log [simp]: "moved e (log_action a e1) = moved e e1"
  by (simp add: moved_def)

lemma update_nonneg:
  assumes "\<forall>p\<in>set ps. 0 \<le> stack p" and "0 \<le> stack q"
  shows "\<forall>p\<in>set (ps[i := q]). 0 \<le> stack p"
  using assms set_update_subset_insert[of ps i q] by auto

lemma pay_chips_moved:
  assumes "idx < length (players e)"
    and "pay \<le> stack (players e ! idx)"
    and "solvent e \<Longrightarrow> 0 \<le> pay"
  shows "moved e (pay_chips idx pay e)"
proof -
  let ?p = "players e ! idx"
  let ?p1 = "?p\<lparr>stack := stack ?p - pay, committed := committed ?p + pay\<rparr>"
  let ?p2 = "if stack ?p1 = 0 then ?p1\<lparr>is_all_in := True\<rparr> else ?p1"
  have st: "stack ?p2 = stack ?p - pay" and cm: "committed ?p2 = committed ?p + pay" by simp_all
  have e1: "pay_chips idx pay e = e\<lparr>players := (players e)[idx := ?p2], total_pot := total_pot e + pay\<rparr>"
    by (simp add: pay_chips_def Let_def)
  have sum: "sum_list (map stack ((players e)[idx := ?p2])) = sum_list (map stack (players e)) - pay"
    using assms(1) by (simp add: sum_list_map_update)
  have csum: "sum_list (map committed ((players e)[idx := ?p2])) = sum_list (map committed (players e)) + pay"
    using assms(1) by (simp add: sum_list_map_update)
  have nn: "\<forall>p\<in>set ((players e)[idx := ?p2]). 0 \<le> stack p" if "\<forall>p\<in>set (players e). 0 \<le> stack p"
  proof (rule update_nonneg[OF that])
    show "0 \<le> stack ?p2" using assms(2) by simp
  qed
  show ?thesis
    unfolding e1 using sum csum nn assms(3)
    by (simp add: moved_def transfers_def stacks_total_def committed_total_def solvent_def)
qed

lemma fold_moved:
  assumes "idx < length (players e)"
  shows "moved e (e\<lparr>players := (players e)[idx := (players e ! idx)\<lparr>is_folded := True\<rparr>]\<rparr>)"
proof -
  let ?q = "(players e ! idx)\<lparr>is_folded := True\<rparr>"
  have sum: "sum_list (map stack ((players e)[idx := ?q])) = sum_list (map stack (players e))"
    using assms by (simp add: sum_list_map_update)
  have csum: "sum_list (map committed ((players e)[idx := ?q])) = sum_list (map committed (players e))"
    using assms by (simp add: sum_list_map_update)
  have nn: "\<forall>p\<in>set ((players e)[idx := ?q]). 0 \<le> stack p" if "\<forall>p\<in>set (players e). 0 \<le> stack p"
  proof (rule update_nonneg[OF that])
    show "0 \<le> stack ?q" using that assms by simp
  qed
  show ?thesis using sum csum nn
    by (simp add: moved_def transfers_def stacks_total_def committed_total_def solvent_def)
qed

lemma allin_moved:
  assumes "idx < length (players e)"
  shows "moved e (e\<lparr>players := (players e)[idx := (players e ! idx)\<lparr>stack := 0,
                       committed := committed (players e ! idx) + stack (players e ! idx),
                       is_all_in := True\<rparr>],
                    total_pot := total_pot e + stack (players e ! idx)\<rparr>)"
proof -
  let ?p = "players e ! idx"
  let ?q = "?p\<lparr>stack := 0, committed := committed ?p + stack ?p, is_all_in := True\<rparr>"
  have sum: "sum_list (map stack ((players e)[idx := ?q])) = sum_list (map stack (players e)) - stack ?p"
    using assms by (simp add: sum_list_map_update)
  have csum: "sum_list (map committed ((players e)[idx := ?q])) = sum_list (map committed (players e)) + stack ?p"
    using assms by (simp add: sum_list_map_update)
  have nn: "\<forall>p\<in>set ((players e)[idx := ?q]). 0 \<le> stack p" if "\<forall>p\<in>set (players e). 0 \<le> stack p"
    by (rule update_nonneg[OF that]) simp
  have "0 \<le> stack ?p" if "\<forall>p\<in>set (players e). 0 \<le> stack p"
    using that assms by simp
  then show ?thesis using sum csum nn
    by (simp add: moved_def transfers_def stacks_total_def committed_total_def solvent_def)
qed

lemma apply_action_unfold:
  assumes "phase e \<noteq> None" and "phase e \<noteq> Some COMPLETED"
    and "find_player_index e pid = Inr idx"
    and "\<not> is_folded (players e ! idx)" and "\<not> is_all_in (players e ! idx)"
    and "legal_actions e pid = Inr legal" and "action \<in> set legal"
  shows "apply_action ev e pid action amount =
     (let p = players e ! idx;
          to_call = Max (committed ` set (players e)) - committed p
      in if action = ''fold'' then
           finish_action ev (log_action (Action pid action 0)
                               (e\<lparr>players := (players e)[idx := p\<lparr>is_folded := True\<rparr>]\<rparr>))
         else if action = ''call'' then
           finish_action ev (log_action (Action pid action (min (stack p) to_call))
                               (pay_chips idx (min (stack p) to_call) e))
         else if action = ''check'' then
           finish_action ev (log_action (Action pid action 0) e)
         else if action = ''bet'' then
           (if amount \<le> 0 \<or> amount > stack p then Inr (Error InvalidBetAmount, e)
            else finish_action ev (log_action (Action pid ''bet'' amount) (pay_chips idx amount e)))
         else if action = ''raise'' then
           (if amount \<le> 0 \<or> amount > stack p then Inr (Error InvalidRaiseAmount, e)
            else finish_action ev (log_action (Action pid ''raise'' (min (stack p) (to_call + amount)))
                                     (pay_chips idx (min (stack p) (to_call + amount)) e)))
         else if action = ''allin'' then
           finish_action ev
             (log_action (Action pid ''allin'' (stack p))
                (e\<lparr>players := (players e)[idx := p\<lparr>stack := 0, committed := committed p + stack p,
                                                       is_all_in := True\<rparr>],
                   total_pot := total_pot e + stack p\<rparr>))
         else finish_action ev e)"
proof -
  have "idx < length (players e)" using assms(3) by (rule find_player_index_lt)
  then have "players e \<noteq> []" by auto
  then have mx: "py_max (map committed (players e)) = Inr (Max (committed ` set (players e)))"
    by (simp add: py_max_Max)
  from assms(1) obtain ph where ph: "phase e = Some ph" by auto
  with assms(2) have nc: "ph \<noteq> COMPLETED" by simp
  show ?thesis
    unfolding apply_action_def using ph nc assms(3-7) mx by (simp add: Let_def)
qed

lemma to_call_nonneg:
  assumes "idx < length (players e)"
  shows "0 \<le> Max (committed ` set (players e)) - committed (players e ! idx)"
proof -
  have "committed (players e ! idx) \<in> committed ` set (players e)" using assms by simp
  then have "committed (players e ! idx) \<le> Max (committed ` set (players e))" by simp
  then show ?thesis by simp
qed

lemma apply_action_cases:
  assumes "apply_action ev e pid action amount = Inr (r, e')"
  shows "(\<exists>msg. r = Error msg \<and> e' = e)
         \<or> (\<exists>e1. finish_action ev e1 = Inr (r, e') \<and> moved e e1
                  \<and> phase e \<noteq> None \<and> phase e \<noteq> Some COMPLETED)"
proof (cases "phase e = None \<or> phase e = Some COMPLETED")
  case True
  then show ?thesis using assms by (auto simp: apply_action_def)
next
  case active: False
  then obtain ph where ph: "phase e = Some ph" "ph \<noteq> COMPLETED" by auto
  show ?thesis
  proof (cases "find_player_index e pid")
    case (Inl x)
    then show ?thesis using assms ph by (simp add: apply_action_def)
  next
    case (Inr idx)
    then have lt: "idx < length (players e)" by (rule find_player_index_lt)
    obtain legal where legal: "legal_actions e pid = Inr legal"
      using legal_actions_total[OF Inr] by blast
    let ?p = "players e ! idx"
    let ?to_call = "Max (committed ` set (players e)) - committed ?p"
    have tc: "0 \<le> ?to_call" using lt by (rule to_call_nonneg)
    show ?thesis
    proof (cases "is_folded ?p \<or> is_all_in ?p \<or> action \<notin> set legal")
      case True
      then show ?thesis using assms ph Inr legal
        by (cases "is_folded ?p \<or> is_all_in ?p") (auto simp: apply_action_def Let_def)
    next
      case False
      then have eq: "apply_action ev e pid action amount = Inr (r, e')" and
        f: "\<not> is_folded ?p" "\<not> is_all_in ?p" "action \<in> set legal"
        using assms by simp_all
      have unf1: "phase e \<noteq> None" and unf2: "phase e \<noteq> Some COMPLETED" using ph by simp_all
      note unf = apply_action_unfold[OF unf1 unf2 Inr f(1) f(2) legal f(3), of ev amount]
      have m_fold: "moved e (e\<lparr>players := (players e)[idx := ?p\<lparr>is_folded := True\<rparr>]\<rparr>)"
        using lt by (rule fold_moved)
      have m_call: "moved e (pay_chips idx (min (stack ?p) ?to_call) e)"
      proof (rule pay_chips_moved[OF lt])
        show "min (stack ?p) ?to_call \<le> stack ?p" by simp
        show "0 \<le> min (stack ?p) ?to_call" if "solvent e"
          using that tc lt by (simp add: solvent_def)
      qed
      have m_bet: "moved e (pay_chips idx amount e)" if "\<not> (amount \<le> 0 \<or> amount > stack ?p)"
        using that by (intro pay_chips_moved[OF lt]) auto
      have m_raise: "moved e (pay_chips idx (min (stack ?p) (?to_call + amount)) e)"
        if "\<not> (amount \<le> 0 \<or> amount > stack ?p)"
      proof (rule pay_chips_moved[OF lt])
        show "min (stack ?p) (?to_call + amount) \<le> stack ?p" by simp
        show "0 \<le> min (stack ?p) (?to_call + amount)" using that tc by simp
      qed
      have m_allin: "moved e (e\<lparr>players := (players e)[idx := ?p\<lparr>stack := 0,
                       committed := committed ?p + stack ?p, is_all_in := True\<rparr>],
                    total_pot := total_pot e + stack ?p\<rparr>)"
        using lt by (rule allin_moved)
      from eq unf
      have body: "(let p = players e ! idx;
          to_call = Max (committed ` set (players e)) - committed p
      in if action = ''fold'' then
           finish_action ev (log_action (Action pid action 0)
                               (e\<lparr>players := (players e)[idx := p\<lparr>is_folded := True\<rparr>]\<rparr>))
         else if action = ''call'' then
           finish_action ev (log_action (Action pid action (min (stack p) to_call))
                               (pay_chips idx (min (stack p) to_call) e))
         else if action = ''check'' then
           finish_action ev (log_action (Action pid action 0) e)
         else if action = ''bet'' then
           (if amount \<le> 0 \<or> amount > stack p then Inr (Error InvalidBetAmount, e)
            else finish_action ev (log_action (Action pid ''bet'' amount) (pay_chips idx amount e)))
         else if action = ''raise'' then
           (if amount \<le> 0 \<or> amount > stack p then Inr (Error InvalidRaiseAmount, e)
            else finish_action ev (log_action (Action pid ''raise'' (min (stack p) (to_call + amount)))
                                     (pay_chips idx (min (stack p) (to_call + amount)) e)))
         else if action = ''allin'' then
           finish_action ev
             (log_action (Action pid ''allin'' (stack p))
                (e\<lparr>players := (players e)[idx := p\<lparr>stack := 0, committed := committed p + stack p,
                                                       is_all_in := True\<rparr>],
                   total_pot := total_pot e + stack p\<rparr>))
         else finish_action ev e) = Inr (r, e')"
        by simp
      consider (fold) "action = ''fold''" | (call) "action = ''call''" | (check) "action = ''check''"
        | (bet) "action = ''bet''" | (raise) "action = ''raise''" | (allin) "action = ''allin''"
        | (other) "action \<notin> {''fold'', ''call'', ''check'', ''bet'', ''raise'', ''allin''}"
        by auto
      then show ?thesis
      proof cases
        case fold
        with body m_fold active show ?thesis by (auto simp: Let_def)
      next
        case call
        with body m_call active show ?thesis by (auto simp: Let_def)
      next
        case check
        with body active show ?thesis by (auto simp: Let_def moved_refl)
      next
        case bet
        with body m_bet active show ?thesis by (auto simp: Let_def split: if_splits)
      next
        case raise
        with body m_raise active show ?thesis by (auto simp: Let_def split: if_splits)
      next
        case allin
        with body m_allin active show ?thesis by (auto simp: Let_def)
      next
        case other
        with body active show ?thesis by (auto simp: Let_def moved_refl)
      qed
    qed
  qed
qed

lemma apply_action_conserves:
  assumes "apply_action ev e pid action amount = Inr (r, e')"
  shows "stacks_total e' + total_pot e' = stacks_total e + total_pot e
         \<and> (solvent e \<longrightarrow> solvent e')
         \<and> (settled e \<longrightarrow> settled e')
         \<and> (booked e \<and> settled e \<longrightarrow> booked e')"
proof -
  from apply_action_cases[OF assms]
  consider (err) msg where "r = Error msg" "e' = e"
    | (ok) e1 where "finish_action ev e1 = Inr (r, e')" "moved e e1"
        "phase e \<noteq> None" "phase e \<noteq> Some COMPLETED"
    by blast
  then show ?thesis
  proof cases
    case err
    then show ?thesis by simp
  next
    case ok
    from finish_action_keeps[OF ok(1)] have k: "keeps e1 e'" and s: "in_play (phase e1) \<longrightarrow> settles e1 e'"
      by simp_all
    have ct: "committed_total e' = committed_total e1" using k by (rule keeps_committed_total)
    have ip: "settled e \<longrightarrow> in_play (phase e1)"
      using ok(2,4) by (simp add: settled_def moved_def transfers_def)
    have c1: "stacks_total e' + total_pot e' = stacks_total e + total_pot e"
      using k ok(2) by (simp add: keeps_def moved_def transfers_def)
    have c2: "solvent e \<longrightarrow> solvent e'" using k ok(2) by (simp add: keeps_def moved_def)
    have c3: "settled e \<longrightarrow> settled e'" using ip s by (auto simp: settled_def settles_def)
    have c4: "booked e \<and> settled e \<longrightarrow> booked e'"
    proof
      assume a: "booked e \<and> settled e"
      then have "in_play (phase e)" using ok(4) by (simp add: settled_def)
      then have "committed_total e = total_pot e" using a by (simp add: booked_def)
      then have b1: "committed_total e1 = total_pot e1"
        using ok(2) by (simp add: moved_def transfers_def)
      from a ip s have "settles e1 e'" by simp
      then show "booked e'" using b1 ct by (auto simp: booked_def settles_def in_play_def)
    qed
    from c1 c2 c3 c4 show ?thesis by simp
  qed
qed

lemma map_update_same:
  assumes "f y = f (xs ! i)"
  shows "map f (xs[i := y]) = map f xs"
proof (cases "i < length xs")
  case True
  have "map f (xs[i := y]) = (map f xs)[i := f (xs ! i)]" using assms by (simp add: map_update)
  also have "\<dots> = map f xs" using True by (metis list_update_id nth_map)
  finally show ?thesis .
next
  case False
  then show ?thesis by (simp add: not_less list_update_beyond)
qed

lemma pay_chips_transfers:
  assumes "idx < length (players e)"
  shows "transfers e (pay_chips idx pay e)"
proof -
  let ?p = "players e ! idx"
  let ?p1 = "?p\<lparr>stack := stack ?p - pay, committed := committed ?p + pay\<rparr>"
  let ?p2 = "if stack ?p1 = 0 then ?p1\<lparr>is_all_in := True\<rparr> else ?p1"
  have e1: "pay_chips idx pay e = e\<lparr>players := (players e)[idx := ?p2], total_pot := total_pot e + pay\<rparr>"
    by (simp add: pay_chips_def Let_def)
  have sum: "sum_list (map stack ((players e)[idx := ?p2])) = sum_list (map stack (players e)) - pay"
    using assms by (simp add: sum_list_map_update)
  have csum: "sum_list (map committed ((players e)[idx := ?p2])) = sum_list (map committed (players e)) + pay"
    using assms by (simp add: sum_list_map_update)
  show ?thesis
    unfolding e1 using sum csum by (simp add: transfers_def stacks_total_def committed_total_def)
qed

lemma pay_chips_solvent:
  assumes "idx < length (players e)" and "pay \<le> stack (players e ! idx)" and "0 \<le> pay"
    and "solvent e"
  shows "solvent (pay_chips idx pay e)"
  using pay_chips_moved[of idx e pay] assms by (simp add: moved_def)

lemma pay_chips_blinds [simp]:
  "small_blind (pay_chips idx pay e) = small_blind e"
  "big_blind (pay_chips idx pay e) = big_blind e"
  "button_index (pay_chips idx pay e) = button_index e"
  by (simp_all add: pay_chips_def Let_def)

lemma post_blind_sound:
  assumes "post_blind idx amount label e = Inr e'"
  shows "transfers e e' \<and> big_blind e' = big_blind e \<and> button_index e' = button_index e
         \<and> (solvent e \<and> 0 \<le> amount \<longrightarrow> solvent e')"
proof -
  let ?p = "players e ! idx"
  let ?actual = "min (stack ?p) amount"
  let ?e0 = "log_action (Action (player_id ?p) (''post_'' @ label) ?actual) e"
  from assms have lt: "idx < length (players e)" and e': "e' = pay_chips idx ?actual ?e0"
    by (auto simp: post_blind_def Let_def split: if_splits)
  have pl: "players ?e0 = players e" by (simp add: log_action_def)
  have t: "transfers ?e0 e'" unfolding e' using lt pl by (intro pay_chips_transfers) simp
  have sv: "solvent e'" if "solvent e" "0 \<le> amount"
    unfolding e'
  proof (rule pay_chips_solvent)
    show "idx < length (players ?e0)" using lt pl by simp
    show "?actual \<le> stack (players ?e0 ! idx)" using pl by simp
    show "0 \<le> ?actual" using that lt by (simp add: solvent_def)
    show "solvent ?e0" using that by simp
  qed
  have "big_blind e' = big_blind e" "button_index e' = button_index e"
    unfolding e' by (simp_all add: log_action_def)
  with t sv show ?thesis by simp
qed

lemma deal_hole_sound:
  "deal_hole ss e = Inr e' \<Longrightarrow> transfers e e' \<and> (solvent e \<longrightarrow> solvent e')"
proof (induction ss arbitrary: e)
  case Nil
  then show ?case by (simp add: transfers_refl)
next
  case (Cons s ss)
  from Cons.prems obtain card rest where d: "deck e = card # rest"
    and r: "deal_hole ss (e\<lparr>deck := rest,
               players := (players e)[s := (players e ! s)\<lparr>hole_cards := hole_cards (players e ! s) @ [card]\<rparr>]\<rparr>) = Inr e'"
    by (auto simp: deck_pop_def split: list.splits)
  let ?q = "(players e ! s)\<lparr>hole_cards := hole_cards (players e ! s) @ [card]\<rparr>"
  let ?e1 = "e\<lparr>deck := rest, players := (players e)[s := ?q]\<rparr>"
  have ms: "map stack ((players e)[s := ?q]) = map stack (players e)"
    by (rule map_update_same) simp
  have mc: "map committed ((players e)[s := ?q]) = map committed (players e)"
    by (rule map_update_same) simp
  have t: "transfers e ?e1" using ms mc by (simp add: transfers_def stacks_total_def committed_total_def)
  have "set (map stack (players ?e1)) = set (map stack (players e))" using ms by simp
  then have sv: "solvent e \<longrightarrow> solvent ?e1"
    by (simp add: solvent_def) (metis (no_types, lifting) image_iff)
  from Cons.IH[OF r] t sv show ?case using transfers_trans by blast
qed

lemma start_hand_sound:
  assumes "start_hand rnd fresh seed e = Inr e'"
  shows "stacks_total e' + total_pot e' = stacks_total e
         \<and> committed_total e' = total_pot e'
         \<and> phase e' = Some PRE_FLOP
         \<and> ((\<forall>p\<in>set (players e). 0 \<le> stack p) \<and> 0 \<le> small_blind e \<and> 0 \<le> big_blind e
              \<longrightarrow> solvent e')"
proof -
  let ?ds = "case seed of None \<Rightarrow> fresh | Some s \<Rightarrow> if s = [] then fresh else s"
  let ?e1 = "e\<lparr>deck_seed := Some ?ds, deck := shuffle_with_seed rnd ?ds, community_cards := [],
                total_pot := 0, actions := [], pot_history := [],
                players := map reset_player (players e)\<rparr>"
  let ?n = "length (players e)"
  let ?bb = "(button_index e + 1) mod ?n"
  from assms obtain e2 e3 e4 where
    p1: "post_blind (button_index e) (small_blind e) ''sb'' ?e1 = Inr e2" and
    p2: "post_blind ?bb (big_blind e2) ''bb'' e2 = Inr e3" and
    p3: "deal_hole (concat (replicate 2 (map (\<lambda>i. ((button_index e3 + 1) mod ?n + i) mod ?n) [0..<?n]))) e3 = Inr e4" and
    fin: "e' = (let e5 = e4\<lparr>phase := Some PRE_FLOP, current_actor_index := (?bb + 1) mod ?n\<rparr>
                in case List.find (\<lambda>idx. can_act (players e5 ! idx))
                          (map (\<lambda>i. (current_actor_index e5 + i) mod ?n) [0..<?n]) of
                     None \<Rightarrow> e5 | Some idx \<Rightarrow> e5\<lparr>current_actor_index := idx\<rparr>)"
    by (auto simp: start_hand_def Let_def bind_exn_def split: if_splits sum.splits)
  have st1: "stacks_total ?e1 = stacks_total e"
    by (simp add: stacks_total_def comp_def reset_player_def)
  have ct1: "committed_total ?e1 = 0"
    by (simp add: committed_total_def comp_def reset_player_def)
  from post_blind_sound[OF p1] have t1: "transfers ?e1 e2" and bb2: "big_blind e2 = big_blind e"
    and s1: "solvent ?e1 \<and> 0 \<le> small_blind e \<longrightarrow> solvent e2" by simp_all
  from post_blind_sound[OF p2] have t2: "transfers e2 e3"
    and s2: "solvent e2 \<and> 0 \<le> big_blind e2 \<longrightarrow> solvent e3" by simp_all
  from deal_hole_sound[OF p3] have t3: "transfers e3 e4" and s3: "solvent e3 \<longrightarrow> solvent e4" by simp_all
  have t: "transfers ?e1 e4" using t1 t2 t3 transfers_trans by blast
  have m: "stacks_total e' = stacks_total e4" "total_pot e' = total_pot e4"
    "committed_total e' = committed_total e4" "phase e' = Some PRE_FLOP" "solvent e' = solvent e4"
    unfolding fin by (simp_all add: Let_def stacks_total_def committed_total_def solvent_def split: option.splits)
  have sol1: "solvent ?e1" if "\<forall>p\<in>set (players e). 0 \<le> stack p"
    using that by (simp add: solvent_def reset_player_def)
  have c1: "stacks_total e' + total_pot e' = stacks_total e"
    using t st1 m by (simp add: transfers_def)
  have c2: "committed_total e' = total_pot e'"
    using t ct1 m by (simp add: transfers_def)
  have c4: "(\<forall>p\<in>set (players e). 0 \<le> stack p) \<and> 0 \<le> small_blind e \<and> 0 \<le> big_blind e \<longrightarrow> solvent e'"
    using sol1 s1 s2 s3 bb2 m by simp
  from c1 c2 m(4) c4 show ?thesis by simp
qed

lemma apply_actions_sound:
  "apply_actions ev e acts = Some e' \<Longrightarrow>
     stacks_total e' + total_pot e' = stacks_total e + total_pot e
     \<and> (solvent e \<longrightarrow> solvent e')
     \<and> (settled e \<longrightarrow> settled e')
     \<and> (booked e \<and> settled e \<longrightarrow> booked e')"
proof (induction acts arbitrary: e)
  case Nil
  then show ?case by simp
next
  case (Cons a acts)
  obtain pid action amount where a: "a = (pid, action, amount)" by (cases a) auto
  from Cons.prems a obtain ph pot e1 where
    step: "apply_action ev e pid action amount = Inr (Ok ph pot, e1)" and
    rest: "apply_actions ev e1 acts = Some e'"
    by (auto split: sum.splits reply.splits prod.splits)
  from apply_action_conserves[OF step] Cons.IH[OF rest] show ?case by auto
qed

text \<open>
  Claim C10. Every applied action, also one that runs the fast-forward and the showdown,
  leaves the sum of the stacks plus the pot unchanged. The committed amounts are a record
  of what the pot holds: while the hand is in play their sum equals the pot.
\<close>

theorem action_conserves_chips:
  assumes "apply_action ev e pid action amount = Inr (Ok ph pot, e')"
  shows "stacks_total e' + total_pot e' = stacks_total e + total_pot e
         \<and> (in_play (phase e) \<and> committed_total e = total_pot e \<and> in_play (phase e')
              \<longrightarrow> committed_total e' = total_pot e')"
proof -
  from apply_action_conserves[OF assms]
  have c: "stacks_total e' + total_pot e' = stacks_total e + total_pot e"
    and b: "booked e \<and> settled e \<longrightarrow> booked e'" by simp_all
  have "committed_total e' = total_pot e'"
    if "in_play (phase e)" "committed_total e = total_pot e" "in_play (phase e')"
  proof -
    have "booked e \<and> settled e" using that by (simp add: booked_def settled_def)
    with b have "booked e'" by simp
    then show ?thesis using that(3) by (simp add: booked_def)
  qed
  with c show ?thesis by simp
qed

theorem action_conserves_chips_witness:
  "apply_action flat_eval two_seats_shoved ''bob'' ''call'' 0 = Inr (Ok COMPLETED 0, two_seats_showdown)
   \<and> stacks_total two_seats_showdown + total_pot two_seats_showdown
       = stacks_total two_seats_shoved + total_pot two_seats_shoved
   \<and> stacks_total two_seats_shoved + total_pot two_seats_shoved = 2000
   \<and> apply_action flat_eval two_seats_dealt ''alice'' ''raise'' 20
       = Inr (Ok PRE_FLOP 40, two_seats_raised)
   \<and> in_play (phase two_seats_dealt)
   \<and> committed_total two_seats_dealt = total_pot two_seats_dealt
   \<and> in_play (phase two_seats_raised)
   \<and> committed_total two_seats_raised = total_pot two_seats_raised"
proof -
  have h: "apply_action flat_eval two_seats_shoved ''bob'' ''call'' 0
             = Inr (Ok COMPLETED 0, two_seats_showdown)"
    by code_simp
  have c: "stacks_total two_seats_showdown + total_pot two_seats_showdown
             = stacks_total two_seats_shoved + total_pot two_seats_shoved"
    using action_conserves_chips[OF h] by blast
  have v: "stacks_total two_seats_shoved + total_pot two_seats_shoved = 2000" by code_simp
  have h2: "apply_action flat_eval two_seats_dealt ''alice'' ''raise'' 20
              = Inr (Ok PRE_FLOP 40, two_seats_raised)"
    by code_simp
  have p1: "in_play (phase two_seats_dealt)" by code_simp
  have p2: "committed_total two_seats_dealt = total_pot two_seats_dealt" by code_simp
  have p3: "in_play (phase two_seats_raised)" by code_simp
  have c2: "committed_total two_seats_raised = total_pot two_seats_raised"
    using action_conserves_chips[OF h2] p1 p2 p3 by blast
  show ?thesis using h c v h2 p1 p2 p3 c2 by - (intro conjI, assumption+)
qed

text \<open>
  Claim C1, as the code has it. Through start\_hand and any sequence of applied actions
  the sum of the stacks plus the pot stays what the sum of the stacks was before the
  hand: the blinds and the final distribution keep it too. At hand completion the pot
  is 0, so the stacks alone sum to what they were before the blinds. The sum over
  committed is not part of the conserved quantity: until completion it equals the pot.
\<close>

theorem hand_conserves_chips:
  assumes "start_hand rnd fresh seed e_start = Inr e_dealt"
    and "apply_actions ev e_dealt acts = Some e_end"
  shows "stacks_total e_end + total_pot e_end = stacks_total e_start
         \<and> (phase e_end = Some COMPLETED \<longrightarrow> total_pot e_end = 0 \<and> stacks_total e_end = stacks_total e_start)
         \<and> (phase e_end \<noteq> Some COMPLETED \<longrightarrow> committed_total e_end = total_pot e_end)"
proof -
  from start_hand_sound[OF assms(1)]
  have s1: "stacks_total e_dealt + total_pot e_dealt = stacks_total e_start"
    and b1: "committed_total e_dealt = total_pot e_dealt" and p1: "phase e_dealt = Some PRE_FLOP" by simp_all
  have set1: "settled e_dealt" and bk1: "booked e_dealt"
    using p1 b1 by (simp_all add: settled_def booked_def in_play_def)
  from apply_actions_sound[OF assms(2)] set1 bk1 s1
  have c: "stacks_total e_end + total_pot e_end = stacks_total e_start" and set2: "settled e_end" and bk2: "booked e_end"
    by simp_all
  have over: "total_pot e_end = 0" if "phase e_end = Some COMPLETED"
    using set2 that by (simp add: settled_def in_play_def)
  have live: "committed_total e_end = total_pot e_end" if "phase e_end \<noteq> Some COMPLETED"
    using set2 bk2 that by (simp add: settled_def booked_def)
  from c over live show ?thesis by auto
qed

theorem hand_conserves_chips_witness:
  "start_hand keep_order ''u1'' (Some ''seed'') two_seats = Inr two_seats_dealt
   \<and> apply_actions flat_eval two_seats_dealt fold_line = Some two_seats_won
   \<and> stacks_total two_seats_won + total_pot two_seats_won = stacks_total two_seats
   \<and> phase two_seats_won = Some COMPLETED
   \<and> stacks_total two_seats_won = 2000
   \<and> apply_actions flat_eval two_seats_dealt [(''alice'', ''call'', 0)] = Some two_seats_called
   \<and> phase two_seats_called = Some FLOP
   \<and> committed_total two_seats_called = total_pot two_seats_called"
proof -
  have s: "start_hand keep_order ''u1'' (Some ''seed'') two_seats = Inr two_seats_dealt"
    by code_simp
  have r: "apply_actions flat_eval two_seats_dealt fold_line = Some two_seats_won"
    by code_simp
  have c: "stacks_total two_seats_won + total_pot two_seats_won = stacks_total two_seats"
    using hand_conserves_chips[OF s r] by blast
  have p: "phase two_seats_won = Some COMPLETED" by (simp add: two_seats_won_def)
  have v: "stacks_total two_seats_won = 2000" by code_simp
  have r2: "apply_actions flat_eval two_seats_dealt [(''alice'', ''call'', 0)] = Some two_seats_called"
    by code_simp
  have p2: "phase two_seats_called = Some FLOP" by (simp add: two_seats_called_def)
  have c2: "committed_total two_seats_called = total_pot two_seats_called"
    using hand_conserves_chips[OF s r2] p2 by simp
  show ?thesis using s r c p v r2 p2 c2 by - (intro conjI, assumption+)
qed

text \<open>
  Claim C1 as stated fails. In the hand where Alice folds and Bob checks to the end,
  the sum of stacks, committed and pot is 2000 before the blinds and 2015 at completion;
  and Alice's call of 5 alone, neither a blind nor a distribution, takes it from 2015 to
  2020.
\<close>

theorem ledger_sum_counterexample:
  "start_hand keep_order ''u1'' (Some ''seed'') two_seats = Inr two_seats_dealt
   \<and> apply_actions flat_eval two_seats_dealt fold_line = Some two_seats_won
   \<and> phase two_seats_won = Some COMPLETED
   \<and> ledger_sum two_seats = 2000
   \<and> ledger_sum two_seats_won = 2015
   \<and> apply_action flat_eval two_seats_dealt ''alice'' ''call'' 0 = Inr (Ok FLOP 20, two_seats_called)
   \<and> ledger_sum two_seats_dealt = 2015
   \<and> ledger_sum two_seats_called = 2020"
proof (intro conjI)
  show "start_hand keep_order ''u1'' (Some ''seed'') two_seats = Inr two_seats_dealt"
    by code_simp
  show "apply_actions flat_eval two_seats_dealt fold_line = Some two_seats_won"
    by code_simp
  show "phase two_seats_won = Some COMPLETED" by (simp add: two_seats_won_def)
  show "ledger_sum two_seats = 2000" by code_simp
  show "ledger_sum two_seats_won = 2015" by code_simp
  show "apply_action flat_eval two_seats_dealt ''alice'' ''call'' 0 = Inr (Ok FLOP 20, two_seats_called)"
    by code_simp
  show "ledger_sum two_seats_dealt = 2015" by code_simp
  show "ledger_sum two_seats_called = 2020" by code_simp
qed

text \<open>
  Claim C4. From stacks and blinds that are not negative, start\_hand followed by any
  sequence of applied actions leaves every stack \<open>\<ge>\<close> 0: the action list is arbitrary,
  so this holds at every state on the way. And a request that would take more than the
  stack holds (a bet or a raise of more than the stack, a call of a to\_call above the
  stack) is answered with an error and the engine unchanged.
\<close>

theorem stacks_never_negative:
  "((\<forall>p\<in>set (players e_start). 0 \<le> stack p) \<and> 0 \<le> small_blind e_start \<and> 0 \<le> big_blind e_start
      \<and> start_hand rnd fresh seed e_start = Inr e_dealt \<and> apply_actions ev e_dealt acts = Some e_end
      \<longrightarrow> (\<forall>p\<in>set (players e_end). 0 \<le> stack p))
   \<and> (find_player_index e pid = Inr idx
       \<and> ((action = ''bet'' \<and> stack (players e ! idx) < amount)
          \<or> (action = ''raise'' \<and> stack (players e ! idx) < amount)
          \<or> (action = ''call''
              \<and> stack (players e ! idx) < Max (committed ` set (players e)) - committed (players e ! idx)))
      \<longrightarrow> (\<exists>msg. apply_action ev e pid action amount = Inr (Error msg, e)))"
proof (intro conjI impI)
  assume a: "(\<forall>p\<in>set (players e_start). 0 \<le> stack p) \<and> 0 \<le> small_blind e_start \<and> 0 \<le> big_blind e_start
      \<and> start_hand rnd fresh seed e_start = Inr e_dealt \<and> apply_actions ev e_dealt acts = Some e_end"
  then have "solvent e_dealt" using start_hand_sound[of rnd fresh seed e_start e_dealt] by simp
  then have "solvent e_end" using a apply_actions_sound[of ev e_dealt acts e_end] by simp
  then show "\<forall>p\<in>set (players e_end). 0 \<le> stack p" by (simp add: solvent_def)
next
  let ?p = "players e ! idx"
  let ?to_call = "Max (committed ` set (players e)) - committed ?p"
  assume b: "find_player_index e pid = Inr idx
       \<and> ((action = ''bet'' \<and> stack ?p < amount)
          \<or> (action = ''raise'' \<and> stack ?p < amount)
          \<or> (action = ''call'' \<and> stack ?p < ?to_call))"
  then have idx: "find_player_index e pid = Inr idx" by simp
  then have "idx < length (players e)" by (rule find_player_index_lt)
  then have "players e \<noteq> []" by auto
  then have mx: "py_max (map committed (players e)) = Inr (Max (committed ` set (players e)))"
    by (simp add: py_max_Max)
  obtain legal where legal: "legal_actions e pid = Inr legal"
    using legal_actions_total[OF idx] by blast
  have nocall: "''call'' \<notin> set legal" if "stack ?p < ?to_call"
  proof (cases "is_folded ?p \<or> is_all_in ?p \<or> phase e = Some COMPLETED")
    case True
    then have "legal = []" using legal idx by (auto simp: legal_actions_def Let_def)
    then show ?thesis by simp
  next
    case False
    then show ?thesis
      using legal idx mx that by (cases "0 < ?to_call") (auto simp: legal_actions_def Let_def)
  qed
  show "\<exists>msg. apply_action ev e pid action amount = Inr (Error msg, e)"
  proof (cases "phase e = None \<or> phase e = Some COMPLETED")
    case True
    then show ?thesis by (auto simp: apply_action_def)
  next
    case False
    then obtain ph where ph: "phase e = Some ph" "ph \<noteq> COMPLETED" by auto
    show ?thesis
    proof (cases "is_folded ?p \<or> is_all_in ?p")
      case True
      then show ?thesis using ph idx by (auto simp: apply_action_def Let_def)
    next
      case can: False
      show ?thesis
      proof (cases "action \<in> set legal")
        case False
        then show ?thesis using ph idx can legal by (simp add: apply_action_def Let_def)
      next
        case True
        have a1: "phase e \<noteq> None" and a2: "phase e \<noteq> Some COMPLETED" using ph by simp_all
        from can have c1: "\<not> is_folded ?p" and c2: "\<not> is_all_in ?p" by simp_all
        note unf = apply_action_unfold[OF a1 a2 idx c1 c2 legal True, of ev amount]
        from b consider (bet) "action = ''bet''" "stack ?p < amount"
          | (raise) "action = ''raise''" "stack ?p < amount"
          | (call) "action = ''call''" "stack ?p < ?to_call"
          by blast
        then show ?thesis
        proof cases
          case bet
          then show ?thesis using unf by (simp add: Let_def)
        next
          case raise
          then show ?thesis using unf by (simp add: Let_def)
        next
          case call
          then show ?thesis using nocall True by simp
        qed
      qed
    qed
  qed
qed

theorem stacks_never_negative_witness:
  "list_all (\<lambda>p. 0 \<le> stack p) (players two_seats)
   \<and> 0 \<le> small_blind two_seats \<and> 0 \<le> big_blind two_seats
   \<and> start_hand keep_order ''u1'' (Some ''seed'') two_seats = Inr two_seats_dealt
   \<and> apply_actions flat_eval two_seats_dealt fold_line = Some two_seats_won
   \<and> list_all (\<lambda>p. 0 \<le> stack p) (players two_seats_won)
   \<and> find_player_index two_seats_called ''bob'' = Inr 1
   \<and> stack (players two_seats_called ! 1) < 5000
   \<and> apply_action flat_eval two_seats_called ''bob'' ''bet'' 5000
       = Inr (Error InvalidBetAmount, two_seats_called)"
proof -
  have h1: "\<forall>p\<in>set (players two_seats). 0 \<le> stack p"
    by (simp add: two_seats_def seat_state_def)
  have h2: "0 \<le> small_blind two_seats" and h3: "0 \<le> big_blind two_seats"
    by (simp_all add: two_seats_def)
  have h4: "start_hand keep_order ''u1'' (Some ''seed'') two_seats = Inr two_seats_dealt"
    by code_simp
  have h5: "apply_actions flat_eval two_seats_dealt fold_line = Some two_seats_won"
    by code_simp
  have g1: "find_player_index two_seats_called ''bob'' = Inr 1" by code_simp
  have g2: "stack (players two_seats_called ! 1) < 5000"
    by (simp add: two_seats_called_def seat_state_def)
  note t = stacks_never_negative[where e_start = two_seats and rnd = keep_order and fresh = "''u1''"
      and seed = "Some ''seed''" and e_dealt = two_seats_dealt and ev = flat_eval and acts = fold_line
      and e_end = two_seats_won and e = two_seats_called and pid = "''bob''" and idx = 1
      and action = "''bet''" and amount = 5000]
  have c1: "\<forall>p\<in>set (players two_seats_won). 0 \<le> stack p"
    using t h1 h2 h3 h4 h5 by blast
  have w1: "list_all (\<lambda>p. 0 \<le> stack p) (players two_seats)"
    using h1 by (simp add: list_all_iff)
  have w2: "list_all (\<lambda>p. 0 \<le> stack p) (players two_seats_won)"
    using c1 by (simp add: list_all_iff)
  have c2: "apply_action flat_eval two_seats_called ''bob'' ''bet'' 5000
              = Inr (Error InvalidBetAmount, two_seats_called)"
    by code_simp
  show ?thesis
    using w1 h2 h3 h4 h5 w2 g1 g2 c2 by - (intro conjI, assumption+)
qed

lemma pay_chips_explicit:
  assumes "\<not> is_all_in (players e ! idx)"
  shows "pay_chips idx pay e =
           e\<lparr>players := (players e)[idx := (players e ! idx)\<lparr>stack := stack (players e ! idx) - pay,
                                     committed := committed (players e ! idx) + pay,
                                     is_all_in := (stack (players e ! idx) - pay = 0)\<rparr>],
             total_pot := total_pot e + pay\<rparr>"
proof -
  obtain p where p: "players e ! idx = p" by simp
  have "is_all_in p = False" using assms p by simp
  then have "(if stack p - pay = 0
              then p\<lparr>stack := stack p - pay, committed := committed p + pay, is_all_in := True\<rparr>
              else p\<lparr>stack := stack p - pay, committed := committed p + pay\<rparr>)
             = p\<lparr>stack := stack p - pay, committed := committed p + pay,
                 is_all_in := (stack p - pay = 0)\<rparr>"
    by (cases p) simp
  then show ?thesis by (simp add: pay_chips_def Let_def p)
qed

text \<open>
  Claim C7. Where raise is in the seat's legal set, apply\_action with raise returns the
  error "Invalid raise amount" (and the engine unchanged) exactly when the amount is
  \<open>\<le>\<close> 0 or above the stack. Otherwise it moves pay = min(stack, to\_call + amount)
  from the stack into committed and the pot, marks the seat all-in iff that empties the
  stack, logs the action with pay as its amount, and goes on with the turn and the round:
  the reply is never an error, however large to\_call + amount is, committed and the
  all-in flag of the seat and the log are as just set in whatever engine is returned.
\<close>

theorem raise_semantics:
  assumes "phase e \<noteq> None" and "phase e \<noteq> Some COMPLETED"
    and idx: "find_player_index e pid = Inr idx"
    and legal: "legal_actions e pid = Inr legal"
    and raise: "''raise'' \<in> set legal"
  shows "let p = players e ! idx;
             to_call = Max (committed ` set (players e)) - committed p;
             pay = min (stack p) (to_call + amount);
             e1 = e\<lparr>players := (players e)[idx := p\<lparr>stack := stack p - pay,
                                                       committed := committed p + pay,
                                                       is_all_in := (stack p - pay = 0)\<rparr>],
                    total_pot := total_pot e + pay,
                    actions := actions e @ [Action pid ''raise'' pay]\<rparr>
         in (apply_action ev e pid ''raise'' amount = Inr (Error InvalidRaiseAmount, e))
              = (amount \<le> 0 \<or> amount > stack p)
            \<and> (\<not> (amount \<le> 0 \<or> amount > stack p) \<longrightarrow>
                 apply_action ev e pid ''raise'' amount = finish_action ev e1
                 \<and> (\<forall>r e'. apply_action ev e pid ''raise'' amount = Inr (r, e') \<longrightarrow>
                       (\<exists>ph. r = Ok ph (total_pot e'))
                       \<and> committed (players e' ! idx) = committed p + pay
                       \<and> is_all_in (players e' ! idx) = (stack p = pay)
                       \<and> actions e' = actions e @ [Action pid ''raise'' pay]))"
proof -
  let ?p = "players e ! idx"
  let ?to_call = "Max (committed ` set (players e)) - committed ?p"
  let ?pay = "min (stack ?p) (?to_call + amount)"
  let ?e1 = "e\<lparr>players := (players e)[idx := ?p\<lparr>stack := stack ?p - ?pay,
                                                    committed := committed ?p + ?pay,
                                                    is_all_in := (stack ?p - ?pay = 0)\<rparr>],
                 total_pot := total_pot e + ?pay,
                 actions := actions e @ [Action pid ''raise'' ?pay]\<rparr>"
  have lt: "idx < length (players e)" using idx by (rule find_player_index_lt)
  have can: "\<not> is_folded ?p" "\<not> is_all_in ?p"
    using legal raise idx by (auto simp: legal_actions_def Let_def split: if_splits)
  note unf = apply_action_unfold[OF assms(1) assms(2) idx can legal raise, of ev amount]
  have bad: "apply_action ev e pid ''raise'' amount = Inr (Error InvalidRaiseAmount, e)"
    if "amount \<le> 0 \<or> amount > stack ?p"
    using unf that by (simp add: Let_def)
  have e1: "log_action (Action pid ''raise'' ?pay) (pay_chips idx ?pay e) = ?e1"
    unfolding pay_chips_explicit[OF can(2)] by (simp add: log_action_def)
  have good: "apply_action ev e pid ''raise'' amount = finish_action ev ?e1"
    if "\<not> (amount \<le> 0 \<or> amount > stack ?p)"
    using unf that e1 by (simp add: Let_def)
  have fin: "(\<exists>ph. r = Ok ph (total_pot e'))
             \<and> committed (players e' ! idx) = committed ?p + ?pay
             \<and> is_all_in (players e' ! idx) = (stack ?p = ?pay)
             \<and> actions e' = actions e @ [Action pid ''raise'' ?pay]"
    if "finish_action ev ?e1 = Inr (r, e')" for r e'
  proof -
    from finish_action_reply[OF that] have r: "\<exists>ph. r = Ok ph (total_pot e')" by blast
    from finish_action_keeps[OF that] have k: "keeps ?e1 e'" by simp
    then have ac: "actions e' = actions ?e1" by (simp add: keeps_def)
    from keeps_nth[OF k, of idx] lt
    have "committed (players e' ! idx) = committed ?p + ?pay"
      and "is_all_in (players e' ! idx) = (stack ?p = ?pay)"
      by auto
    with r ac show ?thesis by simp
  qed
  have neq: "apply_action ev e pid ''raise'' amount \<noteq> Inr (Error InvalidRaiseAmount, e)"
    if "\<not> (amount \<le> 0 \<or> amount > stack ?p)"
    using good[OF that] finish_action_reply[of ev ?e1 "Error InvalidRaiseAmount" e] by auto
  have iff: "(apply_action ev e pid ''raise'' amount = Inr (Error InvalidRaiseAmount, e))
               = (amount \<le> 0 \<or> amount > stack ?p)"
    using bad neq by blast
  have ok: "apply_action ev e pid ''raise'' amount = finish_action ev ?e1
            \<and> (\<forall>r e'. apply_action ev e pid ''raise'' amount = Inr (r, e') \<longrightarrow>
                   (\<exists>ph. r = Ok ph (total_pot e'))
                   \<and> committed (players e' ! idx) = committed ?p + ?pay
                   \<and> is_all_in (players e' ! idx) = (stack ?p = ?pay)
                   \<and> actions e' = actions e @ [Action pid ''raise'' ?pay])"
    if v: "\<not> (amount \<le> 0 \<or> amount > stack ?p)"
  proof (intro conjI allI impI)
    show g: "apply_action ev e pid ''raise'' amount = finish_action ev ?e1" by (rule good[OF v])
    fix r e'
    assume "apply_action ev e pid ''raise'' amount = Inr (r, e')"
    then have f: "finish_action ev ?e1 = Inr (r, e')" using g by simp
    from fin[OF f] show "\<exists>ph. r = Ok ph (total_pot e')"
      and "committed (players e' ! idx) = committed ?p + ?pay"
      and "is_all_in (players e' ! idx) = (stack ?p = ?pay)"
      and "actions e' = actions e @ [Action pid ''raise'' ?pay]"
      by blast+
  qed
  show ?thesis
    unfolding Let_def
  proof (intro conjI impI)
    show "(apply_action ev e pid ''raise'' amount = Inr (Error InvalidRaiseAmount, e))
            = (amount \<le> 0 \<or> amount > stack ?p)" by (rule iff)
  next
    assume v: "\<not> (amount \<le> 0 \<or> amount > stack ?p)"
    from ok[OF v] show "apply_action ev e pid ''raise'' amount = finish_action ev ?e1" by blast
  next
    assume v: "\<not> (amount \<le> 0 \<or> amount > stack ?p)"
    from ok[OF v] show "\<forall>r e'. apply_action ev e pid ''raise'' amount = Inr (r, e') \<longrightarrow>
                   (\<exists>ph. r = Ok ph (total_pot e'))
                   \<and> committed (players e' ! idx) = committed ?p + ?pay
                   \<and> is_all_in (players e' ! idx) = (stack ?p = ?pay)
                   \<and> actions e' = actions e @ [Action pid ''raise'' ?pay]" by blast
  qed
qed

theorem raise_semantics_witness:
  "phase two_seats_dealt \<noteq> None \<and> phase two_seats_dealt \<noteq> Some COMPLETED
   \<and> find_player_index two_seats_dealt ''alice'' = Inr 0
   \<and> legal_actions two_seats_dealt ''alice'' = Inr [''fold'', ''call'', ''raise'', ''allin'']
   \<and> ''raise'' \<in> set [''fold'', ''call'', ''raise'', ''allin'']
   \<and> apply_action flat_eval two_seats_dealt ''alice'' ''raise'' 20
       = Inr (Ok PRE_FLOP 40, two_seats_raised)
   \<and> (apply_action flat_eval two_seats_dealt ''alice'' ''raise'' 2000
        = Inr (Error InvalidRaiseAmount, two_seats_dealt))
      = (2000 \<le> (0::int) \<or> 2000 > stack (players two_seats_dealt ! 0))"
proof -
  have h1: "phase two_seats_dealt \<noteq> None" and h2: "phase two_seats_dealt \<noteq> Some COMPLETED"
    by (simp_all add: two_seats_dealt_def)
  have h3: "find_player_index two_seats_dealt ''alice'' = Inr 0" by code_simp
  have h4: "legal_actions two_seats_dealt ''alice'' = Inr [''fold'', ''call'', ''raise'', ''allin'']"
    by code_simp
  have h5: "''raise'' \<in> set [''fold'', ''call'', ''raise'', ''allin'']" by simp
  have a: "apply_action flat_eval two_seats_dealt ''alice'' ''raise'' 20
             = Inr (Ok PRE_FLOP 40, two_seats_raised)"
    by code_simp
  have b: "(apply_action flat_eval two_seats_dealt ''alice'' ''raise'' 2000
              = Inr (Error InvalidRaiseAmount, two_seats_dealt))
           = (2000 \<le> (0::int) \<or> 2000 > stack (players two_seats_dealt ! 0))"
    using raise_semantics[OF h1 h2 h3 h4 h5, where ev = flat_eval and amount = 2000] unfolding Let_def by blast
  show ?thesis
    using h1 h2 h3 h4 h5 a b by - (intro conjI, assumption+)
qed

lemma add_stack_nth:
  "j < length ps \<Longrightarrow>
   add_stack a i ps ! j = (if j = i then (ps ! j)\<lparr>stack := stack (ps ! j) + a\<rparr> else ps ! j)"
  by (simp add: add_stack_def nth_list_update)

lemma fold_add_stack_nth:
  "distinct is \<Longrightarrow> j < length ps \<Longrightarrow>
   fold (add_stack a) is ps ! j
     = (if j \<in> set is then (ps ! j)\<lparr>stack := stack (ps ! j) + a\<rparr> else ps ! j)"
proof (induction "is" arbitrary: ps)
  case Nil
  then show ?case by simp
next
  case (Cons i "is")
  have d: "distinct is" and ni: "i \<notin> set is" using Cons.prems(1) by simp_all
  have len: "j < length (add_stack a i ps)" using Cons.prems(2) by simp
  have "fold (add_stack a) (i # is) ps ! j = fold (add_stack a) is (add_stack a i ps) ! j" by simp
  also have "\<dots> = (if j \<in> set is
                    then (add_stack a i ps ! j)\<lparr>stack := stack (add_stack a i ps ! j) + a\<rparr>
                    else add_stack a i ps ! j)"
    by (rule Cons.IH[OF d len])
  also have "\<dots> = (if j \<in> set (i # is) then (ps ! j)\<lparr>stack := stack (ps ! j) + a\<rparr> else ps ! j)"
    using ni Cons.prems(2) by (auto simp: add_stack_nth)
  finally show ?case .
qed

text \<open>
  Claim C8. With at least two unfolded seats at showdown, let the co-winners be the
  unfolded seats with the minimal score and k their number. Distribution returns, adds
  pot div k to the stack of each co-winner and the remainder pot mod k to the co-winner
  with the lowest seat index, changes no other field of any seat, appends one record of
  the winners, the share and the remainder, and sets the pot to 0.
\<close>

theorem tie_split:
  assumes "2 \<le> length (unfolded_seats e)"
  shows "\<exists>e'. evaluate_and_distribute ev e = Inr e'
     \<and> total_pot e' = 0
     \<and> pot_history e' = pot_history e
          @ [SplitPot (map (\<lambda>i. player_id (players e ! i)) (co_winners ev e))
               (total_pot e div int (length (co_winners ev e)))
               (total_pot e mod int (length (co_winners ev e)))]
     \<and> length (players e') = length (players e)
     \<and> (\<forall>i<length (players e).
           players e' ! i = (players e ! i)\<lparr>stack := stack (players e ! i)
              + (if i \<in> set (co_winners ev e)
                 then total_pot e div int (length (co_winners ev e)) else 0)
              + (if i = Min (set (co_winners ev e))
                 then total_pot e mod int (length (co_winners ev e)) else 0)\<rparr>)"
proof -
  let ?W = "co_winners ev e"
  let ?share = "total_pot e div int (length ?W)"
  let ?rem = "total_pot e mod int (length ?W)"
  let ?ps1 = "fold (add_stack ?share) ?W (players e)"
  let ?ps2 = "add_stack ?rem (?W ! 0) ?ps1"
  let ?e' = "e\<lparr>players := ?ps2,
               pot_history := pot_history e
                 @ [SplitPot (map (\<lambda>i. player_id (players e ! i)) ?W) ?share ?rem],
               total_pot := 0\<rparr>"
  have ne: "unfolded_seats e \<noteq> []" and n1: "length (unfolded_seats e) \<noteq> 1" using assms by auto
  have ev: "evaluate_and_distribute ev e = Inr ?e'" by (rule evaluate_split[OF n1 ne])
  have first: "?W ! 0 = Min (set ?W)" by (rule co_winners_first[OF ne])
  have dist: "distinct ?W" using co_winners_sorted_distinct[of ev e] by simp
  have nth: "?ps2 ! i = (players e ! i)\<lparr>stack := stack (players e ! i)
              + (if i \<in> set ?W then ?share else 0)
              + (if i = Min (set ?W) then ?rem else 0)\<rparr>"
    if "i < length (players e)" for i
  proof -
    have l1: "i < length ?ps1" using that by simp
    have a: "?ps2 ! i = (if i = Min (set ?W) then (?ps1 ! i)\<lparr>stack := stack (?ps1 ! i) + ?rem\<rparr>
                         else ?ps1 ! i)"
      using add_stack_nth[OF l1, of ?rem "?W ! 0"] by (simp only: first)
    have b: "?ps1 ! i = (if i \<in> set ?W
                         then (players e ! i)\<lparr>stack := stack (players e ! i) + ?share\<rparr>
                         else players e ! i)"
      using dist that by (rule fold_add_stack_nth)
    show ?thesis
      unfolding a b by (cases "i \<in> set ?W"; cases "i = Min (set ?W)") simp_all
  qed
  show ?thesis
  proof (intro exI conjI allI impI)
    show "evaluate_and_distribute ev e = Inr ?e'" by (rule ev)
    show "total_pot ?e' = 0" by simp
    show "pot_history ?e' = pot_history e
          @ [SplitPot (map (\<lambda>i. player_id (players e ! i)) ?W) ?share ?rem]" by simp
    show "length (players ?e') = length (players e)" by simp
    fix i assume "i < length (players e)"
    from nth[OF this] show "players ?e' ! i = (players e ! i)\<lparr>stack := stack (players e ! i)
              + (if i \<in> set ?W then ?share else 0)
              + (if i = Min (set ?W) then ?rem else 0)\<rparr>" by simp
  qed
qed

theorem tie_split_witness:
  "2 \<le> length (unfolded_seats four_seats_river)
   \<and> co_winners flat_eval four_seats_river = [1, 2, 3]
   \<and> evaluate_and_distribute flat_eval four_seats_river = Inr four_seats_paid
   \<and> map stack (players four_seats_paid) = [50, 44, 53, 63]
   \<and> total_pot four_seats_paid = 0"
proof -
  have h: "2 \<le> length (unfolded_seats four_seats_river)" by code_simp
  have w: "co_winners flat_eval four_seats_river = [1, 2, 3]" by code_simp
  have a: "evaluate_and_distribute flat_eval four_seats_river = Inr four_seats_paid" by code_simp
  have s: "map stack (players four_seats_paid) = [50, 44, 53, 63]"
    by (simp add: four_seats_paid_def seat_state_def)
  have "\<exists>e'. evaluate_and_distribute flat_eval four_seats_river = Inr e' \<and> total_pot e' = 0"
    using tie_split[OF h, of flat_eval] by blast
  then have p: "total_pot four_seats_paid = 0" using a by simp
  show ?thesis
    using h w a s p by - (intro conjI, assumption+)
qed

lemma unfolded_seats_players: "players x = players y \<Longrightarrow> unfolded_seats x = unfolded_seats y"
  by (simp add: unfolded_seats_def)

lemma deal_street_paired:
  assumes "paired x y"
  shows "(\<exists>sx sy. deal_street (x\<lparr>phase := ph\<rparr>) = Inl (IndexError, sx)
                 \<and> deal_street (y\<lparr>phase := ph\<rparr>) = Inl (IndexError, sy))
         \<or> (\<exists>x' y'. deal_street (x\<lparr>phase := ph\<rparr>) = Inr x'
                 \<and> deal_street (y\<lparr>phase := ph\<rparr>) = Inr y'
                 \<and> paired x' y' \<and> phase x' = ph)"
  using assms
  by (auto simp: deal_street_def deck_pop_def paired_def unfolded_seats_def split: list.splits)

lemma deal_flop_paired:
  assumes "paired x y"
  shows "(\<exists>sx sy. deal_flop (x\<lparr>phase := ph\<rparr>) = Inl (IndexError, sx)
                 \<and> deal_flop (y\<lparr>phase := ph\<rparr>) = Inl (IndexError, sy))
         \<or> (\<exists>x' y'. deal_flop (x\<lparr>phase := ph\<rparr>) = Inr x'
                 \<and> deal_flop (y\<lparr>phase := ph\<rparr>) = Inr y'
                 \<and> paired x' y' \<and> phase x' = ph)"
  using assms
  by (auto simp: deal_flop_def deck_pop_def paired_def unfolded_seats_def split: list.splits)

lemma evaluate_frame:
  assumes "unfolded_seats e \<noteq> []"
  shows "\<exists>e'. evaluate_and_distribute ev e = Inr e' \<and> deck e' = deck e
              \<and> community_cards e' = community_cards e \<and> phase e' = phase e"
proof (cases "length (unfolded_seats e) = 1")
  case True
  then obtain w where "unfolded_seats e = [w]"
    by (cases "unfolded_seats e") auto
  from evaluate_single[OF this] show ?thesis by simp
next
  case False
  from evaluate_split[OF False assms] show ?thesis by simp
qed

lemma showdown_view:
  assumes "unfolded_seats e \<noteq> []"
  shows "board_view (showdown ev (e\<lparr>phase := ph\<rparr>)) = Inr (community_cards e, deck e, Some COMPLETED)"
proof -
  have "unfolded_seats (e\<lparr>phase := ph\<rparr>) \<noteq> []" using assms by (simp add: unfolded_seats_def)
  from evaluate_frame[OF this, of ev] obtain e' where
    "evaluate_and_distribute ev (e\<lparr>phase := ph\<rparr>) = Inr e'" "deck e' = deck e"
    "community_cards e' = community_cards e" by auto
  then show ?thesis by (simp add: showdown_def board_view_def)
qed

lemma active_unfolded:
  assumes "filter can_act (players y) \<noteq> []"
  shows "unfolded_seats y \<noteq> []"
proof -
  from assms obtain p where "p \<in> set (players y)" "can_act p"
    by (auto simp: filter_empty_conv)
  then obtain i where "i < length (players y)" "players y ! i = p"
    by (auto simp: in_set_conv_nth)
  then have "i \<in> set (unfolded_seats y)"
    using \<open>can_act p\<close> by (simp add: unfolded_seats_def can_act_def)
  then show ?thesis by auto
qed

lemma board_view_simps [simp]:
  "board_view (Inl (x, s)) = Inl x"
  "board_view (Inr e) = Inr (community_cards e, deck e, phase e)"
  by (simp_all add: board_view_def)

lemma advance_phase_river:
  "phase e = Some RIVER \<Longrightarrow> advance_phase ev e = showdown ev (e\<lparr>phase := Some SHOWDOWN\<rparr>)"
  by (simp add: advance_phase_def)

lemma advance_phase_turn:
  "phase e = Some TURN \<Longrightarrow>
   advance_phase ev e = bind_exn (deal_street (e\<lparr>phase := Some RIVER\<rparr>))
     (\<lambda>e2. if length (filter can_act (players e2)) = 0 then fast_forward ev e2 else Inr e2)"
  by (simp add: advance_phase_def)

lemma advance_phase_flop:
  "phase e = Some FLOP \<Longrightarrow>
   advance_phase ev e = bind_exn (deal_street (e\<lparr>phase := Some TURN\<rparr>))
     (\<lambda>e2. if length (filter can_act (players e2)) = 0 then fast_forward ev e2 else Inr e2)"
  by (simp add: advance_phase_def)

lemma advance_phase_preflop:
  "phase e = Some PRE_FLOP \<Longrightarrow>
   advance_phase ev e = bind_exn (deal_flop (e\<lparr>phase := Some FLOP\<rparr>))
     (\<lambda>e2. if length (filter can_act (players e2)) = 0 then fast_forward ev e2 else Inr e2)"
  by (simp add: advance_phase_def)

lemma fast_forward_turn_step:
  "phase e = Some TURN \<Longrightarrow>
   fast_forward ev e = bind_exn (deal_street (e\<lparr>phase := Some RIVER\<rparr>)) (fast_forward ev)"
  by (simp add: fast_forward.simps[of ev e] bind_exn_def)

lemma fast_forward_flop_step:
  "phase e = Some FLOP \<Longrightarrow>
   fast_forward ev e = bind_exn (deal_street (e\<lparr>phase := Some TURN\<rparr>)) (fast_forward ev)"
  by (simp add: fast_forward.simps[of ev e] bind_exn_def)

lemma bind_exn_Inr [simp]: "bind_exn m Inr = m"
  by (cases m) simp_all

lemma step_by_step_0 [simp]: "step_by_step ev 0 = Inr"
  by (rule ext) simp

lemma paired_step:
  assumes dl: "(\<exists>sx sy. dx = Inl (IndexError, sx) \<and> dy = Inl (IndexError, sy))
               \<or> (\<exists>x' y'. dx = Inr x' \<and> dy = Inr y' \<and> paired x' y' \<and> phase x' = ph)"
    and lhs: "\<And>x'. filter can_act (players x') = [] \<Longrightarrow> F x' = fast_forward ev x'"
    and rhs: "advance_phase ev y = bind_exn dy
                (\<lambda>y2. if length (filter can_act (players y2)) = 0 then fast_forward ev y2 else Inr y2)"
    and ih: "\<And>x' y'. paired x' y' \<Longrightarrow> phase x' = ph \<Longrightarrow>
               board_view (fast_forward ev x') = board_view (step_by_step ev n y')"
  shows "board_view (bind_exn dx F) = board_view (step_by_step ev (Suc n) y)"
  using dl
proof (elim disjE exE conjE)
  fix sx sy
  assume "dx = Inl (IndexError, sx)" "dy = Inl (IndexError, sy)"
  then show ?thesis using rhs by simp
next
  fix x' y'
  assume d: "dx = Inr x'" "dy = Inr y'" and p: "paired x' y'" and ph: "phase x' = ph"
  have na: "filter can_act (players x') = []" and ac: "filter can_act (players y') \<noteq> []"
    using p by (simp_all add: paired_def)
  have "board_view (bind_exn dx F) = board_view (fast_forward ev x')"
    using d lhs[OF na] by simp
  also have "\<dots> = board_view (step_by_step ev n y')" by (rule ih[OF p ph])
  also have "step_by_step ev n y' = step_by_step ev (Suc n) y"
    using d rhs ac by simp
  finally show ?thesis .
qed

lemma view_river:
  assumes "paired x y" and "phase x = Some RIVER"
  shows "board_view (fast_forward ev x) = board_view (step_by_step ev (Suc 0) y)"
proof -
  have py: "phase y = Some RIVER" and ux: "unfolded_seats x \<noteq> []"
    and cards: "deck x = deck y" "community_cards x = community_cards y"
    using assms by (simp_all add: paired_def)
  have uy: "unfolded_seats y \<noteq> []" using assms(1) by (intro active_unfolded) (simp add: paired_def)
  have "board_view (fast_forward ev x) = Inr (community_cards x, deck x, Some COMPLETED)"
    using assms(2) ux by (simp add: fast_forward_river showdown_view)
  moreover have "board_view (step_by_step ev (Suc 0) y) = Inr (community_cards y, deck y, Some COMPLETED)"
    using py uy by (simp add: advance_phase_river showdown_view)
  ultimately show ?thesis using cards by simp
qed

lemma view_turn:
  assumes "paired x y" and "phase x = Some TURN"
  shows "board_view (fast_forward ev x) = board_view (step_by_step ev (Suc (Suc 0)) y)"
proof -
  have py: "phase y = Some TURN" using assms by (simp add: paired_def)
  show ?thesis
    unfolding fast_forward_turn_step[OF assms(2)]
  proof (rule paired_step)
    show "(\<exists>sx sy. deal_street (x\<lparr>phase := Some RIVER\<rparr>) = Inl (IndexError, sx)
                 \<and> deal_street (y\<lparr>phase := Some RIVER\<rparr>) = Inl (IndexError, sy))
         \<or> (\<exists>x' y'. deal_street (x\<lparr>phase := Some RIVER\<rparr>) = Inr x'
                 \<and> deal_street (y\<lparr>phase := Some RIVER\<rparr>) = Inr y'
                 \<and> paired x' y' \<and> phase x' = Some RIVER)"
      by (rule deal_street_paired[OF assms(1)])
    show "advance_phase ev y = bind_exn (deal_street (y\<lparr>phase := Some RIVER\<rparr>))
            (\<lambda>y2. if length (filter can_act (players y2)) = 0 then fast_forward ev y2 else Inr y2)"
      by (rule advance_phase_turn[OF py])
    show "\<And>x' y'. paired x' y' \<Longrightarrow> phase x' = Some RIVER \<Longrightarrow>
            board_view (fast_forward ev x') = board_view (step_by_step ev (Suc 0) y')"
      by (rule view_river)
  qed simp
qed

lemma view_flop:
  assumes "paired x y" and "phase x = Some FLOP"
  shows "board_view (fast_forward ev x) = board_view (step_by_step ev (Suc (Suc (Suc 0))) y)"
proof -
  have py: "phase y = Some FLOP" using assms by (simp add: paired_def)
  show ?thesis
    unfolding fast_forward_flop_step[OF assms(2)]
  proof (rule paired_step)
    show "(\<exists>sx sy. deal_street (x\<lparr>phase := Some TURN\<rparr>) = Inl (IndexError, sx)
                 \<and> deal_street (y\<lparr>phase := Some TURN\<rparr>) = Inl (IndexError, sy))
         \<or> (\<exists>x' y'. deal_street (x\<lparr>phase := Some TURN\<rparr>) = Inr x'
                 \<and> deal_street (y\<lparr>phase := Some TURN\<rparr>) = Inr y'
                 \<and> paired x' y' \<and> phase x' = Some TURN)"
      by (rule deal_street_paired[OF assms(1)])
    show "advance_phase ev y = bind_exn (deal_street (y\<lparr>phase := Some TURN\<rparr>))
            (\<lambda>y2. if length (filter can_act (players y2)) = 0 then fast_forward ev y2 else Inr y2)"
      by (rule advance_phase_flop[OF py])
    show "\<And>x' y'. paired x' y' \<Longrightarrow> phase x' = Some TURN \<Longrightarrow>
            board_view (fast_forward ev x') = board_view (step_by_step ev (Suc (Suc 0)) y')"
      by (rule view_turn)
  qed simp
qed

lemma advance_phase_view:
  assumes pr: "paired x y" and ip: "in_play (phase x)"
  shows "board_view (advance_phase ev x) = board_view (step_by_step ev (streets_left (phase x)) y)"
proof -
  have py: "phase y = phase x" using pr by (simp add: paired_def)
  have F: "(if length (filter can_act (players x')) = 0 then fast_forward ev x' else Inr x')
           = fast_forward ev x'" if "filter can_act (players x') = []" for x'
    using that by simp
  from ip consider (pre) "phase x = Some PRE_FLOP" | (flop) "phase x = Some FLOP"
    | (turn) "phase x = Some TURN" | (river) "phase x = Some RIVER"
    by (auto simp: in_play_def)
  then show ?thesis
  proof cases
    case pre
    have n: "streets_left (phase x) = Suc (Suc (Suc (Suc 0)))" using pre by (simp add: streets_left_def)
    show ?thesis
      unfolding n advance_phase_preflop[OF pre]
    proof (rule paired_step)
      show "(\<exists>sx sy. deal_flop (x\<lparr>phase := Some FLOP\<rparr>) = Inl (IndexError, sx)
                 \<and> deal_flop (y\<lparr>phase := Some FLOP\<rparr>) = Inl (IndexError, sy))
         \<or> (\<exists>x' y'. deal_flop (x\<lparr>phase := Some FLOP\<rparr>) = Inr x'
                 \<and> deal_flop (y\<lparr>phase := Some FLOP\<rparr>) = Inr y'
                 \<and> paired x' y' \<and> phase x' = Some FLOP)"
        by (rule deal_flop_paired[OF pr])
      show "advance_phase ev y = bind_exn (deal_flop (y\<lparr>phase := Some FLOP\<rparr>))
            (\<lambda>y2. if length (filter can_act (players y2)) = 0 then fast_forward ev y2 else Inr y2)"
        using py pre by (intro advance_phase_preflop) simp
      show "\<And>x' y'. paired x' y' \<Longrightarrow> phase x' = Some FLOP \<Longrightarrow>
            board_view (fast_forward ev x') = board_view (step_by_step ev (Suc (Suc (Suc 0))) y')"
        by (rule view_flop)
    qed (rule F)
  next
    case flop
    have n: "streets_left (phase x) = Suc (Suc (Suc 0))" using flop by (simp add: streets_left_def)
    show ?thesis
      unfolding n advance_phase_flop[OF flop]
    proof (rule paired_step)
      show "(\<exists>sx sy. deal_street (x\<lparr>phase := Some TURN\<rparr>) = Inl (IndexError, sx)
                 \<and> deal_street (y\<lparr>phase := Some TURN\<rparr>) = Inl (IndexError, sy))
         \<or> (\<exists>x' y'. deal_street (x\<lparr>phase := Some TURN\<rparr>) = Inr x'
                 \<and> deal_street (y\<lparr>phase := Some TURN\<rparr>) = Inr y'
                 \<and> paired x' y' \<and> phase x' = Some TURN)"
        by (rule deal_street_paired[OF pr])
      show "advance_phase ev y = bind_exn (deal_street (y\<lparr>phase := Some TURN\<rparr>))
            (\<lambda>y2. if length (filter can_act (players y2)) = 0 then fast_forward ev y2 else Inr y2)"
        using py flop by (intro advance_phase_flop) simp
      show "\<And>x' y'. paired x' y' \<Longrightarrow> phase x' = Some TURN \<Longrightarrow>
            board_view (fast_forward ev x') = board_view (step_by_step ev (Suc (Suc 0)) y')"
        by (rule view_turn)
    qed (rule F)
  next
    case turn
    have n: "streets_left (phase x) = Suc (Suc 0)" using turn by (simp add: streets_left_def)
    show ?thesis
      unfolding n advance_phase_turn[OF turn]
    proof (rule paired_step)
      show "(\<exists>sx sy. deal_street (x\<lparr>phase := Some RIVER\<rparr>) = Inl (IndexError, sx)
                 \<and> deal_street (y\<lparr>phase := Some RIVER\<rparr>) = Inl (IndexError, sy))
         \<or> (\<exists>x' y'. deal_street (x\<lparr>phase := Some RIVER\<rparr>) = Inr x'
                 \<and> deal_street (y\<lparr>phase := Some RIVER\<rparr>) = Inr y'
                 \<and> paired x' y' \<and> phase x' = Some RIVER)"
        by (rule deal_street_paired[OF pr])
      show "advance_phase ev y = bind_exn (deal_street (y\<lparr>phase := Some RIVER\<rparr>))
            (\<lambda>y2. if length (filter can_act (players y2)) = 0 then fast_forward ev y2 else Inr y2)"
        using py turn by (intro advance_phase_turn) simp
      show "\<And>x' y'. paired x' y' \<Longrightarrow> phase x' = Some RIVER \<Longrightarrow>
            board_view (fast_forward ev x') = board_view (step_by_step ev (Suc 0) y')"
        by (rule view_river)
    qed (rule F)
  next
    case river
    have n: "streets_left (phase x) = Suc 0" using river by (simp add: streets_left_def)
    have "advance_phase ev x = fast_forward ev x"
      using river by (simp add: advance_phase_river fast_forward_river)
    then show ?thesis unfolding n using view_river[OF pr river] by simp
  qed
qed

text \<open>
  Claim C6. Let a betting round complete in an engine \<open>e\<close> in which no seat can act
  (some seat being unfolded), and let \<open>e2\<close> be an engine with the same deck, board and
  phase in which a seat can act, so that it advances one street per completed round.
  The one phase advancement of \<open>e\<close> and the remaining advancements of \<open>e2\<close> end alike:
  the same exception, or the phase COMPLETED with the same board and the same deck left.
  From PRE\_FLOP with eight cards or more in the deck, the advancement of \<open>e\<close> is the
  showdown on the board extended by the cards at positions 2, 3, 4, 6 and 8 of the deck
  (three for the flop, one for the turn, one for the river, each batch after one burn
  card): five cards are on the board before distribution runs. From FLOP, TURN and RIVER
  the two, one or no cards still missing are dealt in the same way.
\<close>

theorem fast_forward_matches_step_by_step:
  assumes "in_play (phase e)"
    and "filter can_act (players e) = []"
    and "unfolded_seats e \<noteq> []"
    and "filter can_act (players e2) \<noteq> []"
    and "deck e2 = deck e" and "community_cards e2 = community_cards e" and "phase e2 = phase e"
  shows "board_view (advance_phase ev e) = board_view (step_by_step ev (streets_left (phase e)) e2)
         \<and> (phase e = Some PRE_FLOP \<and> deck e = b1 # c1 # c2 # c3 # b2 # c4 # b3 # c5 # rest \<longrightarrow>
              advance_phase ev e
                = showdown ev (e\<lparr>phase := Some SHOWDOWN, deck := rest,
                                  community_cards := community_cards e @ [c1, c2, c3, c4, c5]\<rparr>)
              \<and> board_view (advance_phase ev e)
                  = Inr (community_cards e @ [c1, c2, c3, c4, c5], rest, Some COMPLETED))
         \<and> (phase e = Some FLOP \<and> deck e = b2 # c4 # b3 # c5 # rest \<longrightarrow>
              board_view (advance_phase ev e)
                = Inr (community_cards e @ [c4, c5], rest, Some COMPLETED))
         \<and> (phase e = Some TURN \<and> deck e = b3 # c5 # rest \<longrightarrow>
              board_view (advance_phase ev e)
                = Inr (community_cards e @ [c5], rest, Some COMPLETED))
         \<and> (phase e = Some RIVER \<longrightarrow>
              board_view (advance_phase ev e) = Inr (community_cards e, deck e, Some COMPLETED))"
proof -
  have reorder: "e\<lparr>deck := d, community_cards := c, phase := p\<rparr>
                 = e\<lparr>phase := p, deck := d, community_cards := c\<rparr>" for d c p
    by (cases e) simp
  have unf: "unfolded_seats (e\<lparr>deck := d, community_cards := c\<rparr>) \<noteq> []" for d c
    using assms(3) by (simp add: unfolded_seats_def)
  have view: "board_view (showdown ev (e\<lparr>phase := Some SHOWDOWN, deck := d, community_cards := c\<rparr>))
                = Inr (c, d, Some COMPLETED)" for d c
    using showdown_view[OF unf[where d = d and c = c], where ev = ev and ph = "Some SHOWDOWN"]
    by (simp add: reorder)
  have paired: "paired e e2" using assms by (simp add: paired_def)
  have main: "board_view (advance_phase ev e) = board_view (step_by_step ev (streets_left (phase e)) e2)"
    using paired assms(1) by (rule advance_phase_view)
  have pre: "advance_phase ev e
               = showdown ev (e\<lparr>phase := Some SHOWDOWN, deck := rest,
                                 community_cards := community_cards e @ [c1, c2, c3, c4, c5]\<rparr>)"
    if a: "phase e = Some PRE_FLOP \<and> deck e = b1 # c1 # c2 # c3 # b2 # c4 # b3 # c5 # rest"
  proof -
    let ?f = "e\<lparr>phase := Some FLOP, deck := b2 # c4 # b3 # c5 # rest,
                 community_cards := community_cards e @ [c1, c2, c3]\<rparr>"
    have d: "deal_flop (e\<lparr>phase := Some FLOP\<rparr>) = Inr ?f"
      using a by (simp add: deal_flop_def deck_pop_def)
    have ff: "fast_forward ev ?f
                = showdown ev (e\<lparr>phase := Some SHOWDOWN, deck := rest,
                                  community_cards := community_cards e @ [c1, c2, c3, c4, c5]\<rparr>)"
      by (simp add: fast_forward_flop deal_street_def deck_pop_def reorder)
    show ?thesis using a d ff assms(2) by (simp add: advance_phase_preflop)
  qed
  have flop: "advance_phase ev e
               = showdown ev (e\<lparr>phase := Some SHOWDOWN, deck := rest,
                                 community_cards := community_cards e @ [c4, c5]\<rparr>)"
    if a: "phase e = Some FLOP \<and> deck e = b2 # c4 # b3 # c5 # rest"
  proof -
    let ?t = "e\<lparr>phase := Some TURN, deck := b3 # c5 # rest,
                 community_cards := community_cards e @ [c4]\<rparr>"
    have d: "deal_street (e\<lparr>phase := Some TURN\<rparr>) = Inr ?t"
      using a by (simp add: deal_street_def deck_pop_def)
    have ff: "fast_forward ev ?t
                = showdown ev (e\<lparr>phase := Some SHOWDOWN, deck := rest,
                                  community_cards := community_cards e @ [c4, c5]\<rparr>)"
      by (simp add: fast_forward_turn deal_street_def deck_pop_def reorder)
    show ?thesis using a d ff assms(2) by (simp add: advance_phase_flop)
  qed
  have turn: "advance_phase ev e
               = showdown ev (e\<lparr>phase := Some SHOWDOWN, deck := rest,
                                 community_cards := community_cards e @ [c5]\<rparr>)"
    if a: "phase e = Some TURN \<and> deck e = b3 # c5 # rest"
  proof -
    let ?r = "e\<lparr>phase := Some RIVER, deck := rest, community_cards := community_cards e @ [c5]\<rparr>"
    have d: "deal_street (e\<lparr>phase := Some RIVER\<rparr>) = Inr ?r"
      using a by (simp add: deal_street_def deck_pop_def)
    have ff: "fast_forward ev ?r
                = showdown ev (e\<lparr>phase := Some SHOWDOWN, deck := rest,
                                  community_cards := community_cards e @ [c5]\<rparr>)"
      by (simp add: fast_forward_river reorder)
    show ?thesis using a d ff assms(2) by (simp add: advance_phase_turn)
  qed
  have river: "board_view (advance_phase ev e) = Inr (community_cards e, deck e, Some COMPLETED)"
    if a: "phase e = Some RIVER"
    using a showdown_view[OF assms(3), where ev = ev and ph = "Some SHOWDOWN"]
    by (simp add: advance_phase_river)
  show ?thesis
  proof (intro conjI impI)
    show "board_view (advance_phase ev e) = board_view (step_by_step ev (streets_left (phase e)) e2)"
      by (rule main)
  next
    assume a: "phase e = Some PRE_FLOP \<and> deck e = b1 # c1 # c2 # c3 # b2 # c4 # b3 # c5 # rest"
    show "advance_phase ev e
            = showdown ev (e\<lparr>phase := Some SHOWDOWN, deck := rest,
                              community_cards := community_cards e @ [c1, c2, c3, c4, c5]\<rparr>)"
      by (rule pre[OF a])
  next
    assume a: "phase e = Some PRE_FLOP \<and> deck e = b1 # c1 # c2 # c3 # b2 # c4 # b3 # c5 # rest"
    show "board_view (advance_phase ev e)
            = Inr (community_cards e @ [c1, c2, c3, c4, c5], rest, Some COMPLETED)"
      unfolding pre[OF a] by (rule view)
  next
    assume a: "phase e = Some FLOP \<and> deck e = b2 # c4 # b3 # c5 # rest"
    show "board_view (advance_phase ev e) = Inr (community_cards e @ [c4, c5], rest, Some COMPLETED)"
      unfolding flop[OF a] by (rule view)
  next
    assume a: "phase e = Some TURN \<and> deck e = b3 # c5 # rest"
    show "board_view (advance_phase ev e) = Inr (community_cards e @ [c5], rest, Some COMPLETED)"
      unfolding turn[OF a] by (rule view)
  next
    assume a: "phase e = Some RIVER"
    show "board_view (advance_phase ev e) = Inr (community_cards e, deck e, Some COMPLETED)"
      by (rule river[OF a])
  qed
qed

theorem fast_forward_matches_step_by_step_witness:
  "in_play (phase two_seats_all_in)
   \<and> filter can_act (players two_seats_all_in) = []
   \<and> unfolded_seats two_seats_all_in \<noteq> []
   \<and> filter can_act (players two_seats_dealt) \<noteq> []
   \<and> deck two_seats_dealt = deck two_seats_all_in
   \<and> community_cards two_seats_dealt = community_cards two_seats_all_in
   \<and> phase two_seats_dealt = phase two_seats_all_in
   \<and> board_view (advance_phase flat_eval two_seats_all_in)
       = board_view (step_by_step flat_eval 4 two_seats_dealt)
   \<and> board_view (advance_phase flat_eval two_seats_all_in)
       = Inr ([''3d'', ''3h'', ''3s'', ''4d'', ''4s''], drop 12 standard_deck, Some COMPLETED)"
proof -
  have h1: "in_play (phase two_seats_all_in)" by code_simp
  have h2: "filter can_act (players two_seats_all_in) = []" by code_simp
  have h3: "unfolded_seats two_seats_all_in \<noteq> []" by code_simp
  have h4: "filter can_act (players two_seats_dealt) \<noteq> []" by code_simp
  have h5: "deck two_seats_dealt = deck two_seats_all_in" by code_simp
  have h6: "community_cards two_seats_dealt = community_cards two_seats_all_in" by code_simp
  have h7: "phase two_seats_dealt = phase two_seats_all_in" by code_simp
  have n: "streets_left (phase two_seats_all_in) = 4" by code_simp
  have a: "board_view (advance_phase flat_eval two_seats_all_in)
             = board_view (step_by_step flat_eval 4 two_seats_dealt)"
    using fast_forward_matches_step_by_step[OF h1 h2 h3 h4 h5 h6 h7, where ev = flat_eval] n
    by simp
  have b: "board_view (advance_phase flat_eval two_seats_all_in)
             = Inr ([''3d'', ''3h'', ''3s'', ''4d'', ''4s''], drop 12 standard_deck, Some COMPLETED)"
    by code_simp
  show ?thesis
    using h1 h2 h3 h4 h5 h6 h7 a b by - (intro conjI, assumption+)
qed

end
